theory Spec2Isabelle
  imports Main
begin

section \<open>Values and runtime primitives\<close>

text \<open>
  The worker pool of \<^verbatim>\<open>concurrency/worker_unbuffed/main.go\<close>: \<^verbatim>\<open>New\<close>, \<^verbatim>\<open>Run\<close> and
  \<^verbatim>\<open>Shutdown\<close> on a \<^verbatim>\<open>Pool\<close> of worker goroutines, two unbuffered channels and a
  \<^verbatim>\<open>sync.WaitGroup\<close>. The goroutines are modelled by their places in the code, the
  program by the steps a scheduler can choose (interleaving semantics).

  A Go \<^verbatim>\<open>error\<close> is \<open>None\<close> for \<^verbatim>\<open>nil\<close> and \<open>Some msg\<close> for
  \<^verbatim>\<open>errors.New(msg)\<close>. The runtime panics that the pool can raise are values.
\<close>

type_synonym error = "string option"

datatype panic = NegativeWaitGroupCounter | SendOnClosedChannel | CloseOfClosedChannel

text \<open>
  A channel as the Go runtime keeps it: the capacity given to \<^verbatim>\<open>make\<close>, the values
  buffered so far, and whether \<^verbatim>\<open>close\<close> has been called. \<^verbatim>\<open>make(chan T)\<close> is
  \<open>make_chan 0\<close>.
\<close>

record 'a chan =
  cap :: nat
  buf :: "'a list"
  is_closed :: bool

definition make_chan :: "nat \<Rightarrow> 'a chan" where
  "make_chan n = \<lparr>cap = n, buf = [], is_closed = False\<rparr>"

definition close_chan :: "'a chan \<Rightarrow> panic + 'a chan" where
  "close_chan c = (if is_closed c then Inl CloseOfClosedChannel else Inr (c\<lparr>is_closed := True\<rparr>))"

text \<open>
  \<^verbatim>\<open>sync.WaitGroup\<close> keeps its counter in the upper 32 bits of its state word.
  \<^verbatim>\<open>Add(delta)\<close> adds \<^verbatim>\<open>uint64(delta) << 32\<close> to the state, reads the counter back as
  an \<^verbatim>\<open>int32\<close> and panics when it is negative: the sum is taken modulo \<open>2^32\<close> and read
  as a signed 32-bit number (\<open>int32\<close>). So \<^verbatim>\<open>Add(2^31)\<close> on a fresh group panics and
  \<^verbatim>\<open>Add(2^32)\<close> adds nothing. \<^verbatim>\<open>Done\<close> is \<^verbatim>\<open>Add(-1)\<close>, \<^verbatim>\<open>Wait\<close> blocks until the
  counter is zero.
\<close>

definition int32 :: "int \<Rightarrow> int" where
  "int32 x = (x + 2 ^ 31) mod 2 ^ 32 - 2 ^ 31"

definition wg_Add :: "int \<Rightarrow> int \<Rightarrow> panic + int" where
  "wg_Add delta v =
     (if int32 (v + delta) < 0 then Inl NegativeWaitGroupCounter else Inr (int32 (v + delta)))"

definition wg_Done :: "int \<Rightarrow> panic + int" where
  "wg_Done v = wg_Add (- 1) v"

section \<open>The pool and its goroutines\<close>

record 'w Pool =
  work :: "'w chan"
  wg :: int
  errChan :: "error chan"

text \<open>
  A worker goroutine started by \<^verbatim>\<open>New\<close> is at one of these places of its body
  \<^verbatim>\<open>for w := range p.work { p.errChan <- w.Task() }; p.wg.Done()\<close>:
  blocked in the range receive, inside \<^verbatim>\<open>w.Task()\<close>, blocked in the send of the
  outcome, returned after \<^verbatim>\<open>Done\<close>, or stopped by a panic.

  In Go a panic that is not recovered ends the whole process. The model stops only the
  goroutine that panics and lets the others go on: every behaviour of the program up to
  a panic is a behaviour of the model, so what holds in all states of the model holds in
  all states of the program.
\<close>

datatype 'w goroutine = Receiving | InTask 'w | Sending error | Exited | Crashed panic

text \<open>
  A client goroutine performs a list of pool calls one after the other. \<open>todo\<close> starts
  with the call in progress, \<open>at\<close> is the place inside it: \<open>Entry\<close> is the first
  statement (\<^verbatim>\<open>p.work <- w\<close> of \<^verbatim>\<open>Run\<close>, \<^verbatim>\<open>close(p.work)\<close> of \<^verbatim>\<open>Shutdown\<close>),
  \<open>AwaitErr\<close> the receive of \<^verbatim>\<open>Run\<close>, \<open>CloseErr\<close> and \<open>Wait\<close> the second and third
  statement of \<^verbatim>\<open>Shutdown\<close>. \<open>log\<close> collects what the finished calls returned.
\<close>

datatype 'w call = Run 'w | Shutdown

datatype pc = Entry | AwaitErr | CloseErr | Wait | Panicked panic

datatype 'w event = RunRet 'w error | ShutdownRet

record 'w client =
  todo :: "'w call list"
  at :: pc
  log :: "'w event list"

record 'w system =
  pool :: "'w Pool"
  workers :: "'w goroutine list"
  clients :: "'w client list"

subsection \<open>New\<close>

text \<open>
  \<^verbatim>\<open>New\<close> makes the two channels without a capacity, adds \<^verbatim>\<open>maxGoroutines\<close> to the
  barrier and starts one worker per round of its loop. \<^verbatim>\<open>Add\<close> comes first: when it
  panics no worker is started. \<^verbatim>\<open>maxGoroutines\<close> is a Go \<^verbatim>\<open>int\<close> of 64 bits; the
  loop counter \<open>i\<close> stays below it, so it cannot overflow, and \<open>int\<close> models both. The
  barrier has 32 bits only: it equals \<^verbatim>\<open>maxGoroutines\<close> for sizes below \<open>2^31\<close>, and
  for larger sizes \<^verbatim>\<open>New\<close> panics or the barrier is smaller than the number of workers.
\<close>

function New_loop :: "int \<Rightarrow> int \<Rightarrow> 'w goroutine list \<Rightarrow> 'w goroutine list" where
  "New_loop i maxGoroutines gs =
     (if i < maxGoroutines then New_loop (i + 1) maxGoroutines (gs @ [Receiving]) else gs)"
  by pat_completeness auto
termination
  by (relation "measure (\<lambda>(i, m, gs). nat (m - i))") auto

definition New :: "int \<Rightarrow> panic + 'w system" where
  "New maxGoroutines =
     (case wg_Add maxGoroutines 0 of
        Inl x \<Rightarrow> Inl x
      | Inr c \<Rightarrow> Inr \<lparr>pool = \<lparr>work = make_chan 0, wg = c, errChan = make_chan 0\<rparr>,
                      workers = New_loop 0 maxGoroutines [],
                      clients = []\<rparr>)"

text \<open>Client goroutines, each about to start its list of calls on the pool.\<close>

definition spawn :: "'w call list list \<Rightarrow> 'w system \<Rightarrow> 'w system" where
  "spawn progs s = s\<lparr>clients := clients s @ map (\<lambda>cs. \<lparr>todo = cs, at = Entry, log = []\<rparr>) progs\<rparr>"

definition start :: "int \<Rightarrow> 'w call list list \<Rightarrow> panic + 'w system" where
  "start maxGoroutines progs =
     (case New maxGoroutines of Inl x \<Rightarrow> Inl x | Inr s \<Rightarrow> Inr (spawn progs s))"

subsection \<open>Steps of one goroutine\<close>

text \<open>
  What a client can do on its own: \<^verbatim>\<open>Run\<close>'s send panics on a closed channel and
  otherwise needs room in the buffer (there is none in a channel of capacity 0);
  \<^verbatim>\<open>Run\<close>'s receive takes a buffered value, or \<^verbatim>\<open>nil\<close> from a closed and drained
  channel; \<^verbatim>\<open>Shutdown\<close> closes the two channels and passes \<^verbatim>\<open>Wait\<close> when the counter
  is zero. \<open>None\<close> means the goroutine is blocked.
\<close>

fun client_solo :: "'w Pool \<Rightarrow> 'w call list \<Rightarrow> pc \<Rightarrow> 'w event list \<Rightarrow> ('w Pool \<times> 'w client) option" where
  "client_solo p (Run w # rest) Entry lg =
     (if is_closed (work p)
      then Some (p, \<lparr>todo = Run w # rest, at = Panicked SendOnClosedChannel, log = lg\<rparr>)
      else if length (buf (work p)) < cap (work p)
      then Some (p\<lparr>work := (work p)\<lparr>buf := buf (work p) @ [w]\<rparr>\<rparr>,
                 \<lparr>todo = Run w # rest, at = AwaitErr, log = lg\<rparr>)
      else None)"
| "client_solo p (Run w # rest) AwaitErr lg =
     (case buf (errChan p) of
        e # es \<Rightarrow> Some (p\<lparr>errChan := (errChan p)\<lparr>buf := es\<rparr>\<rparr>,
                        \<lparr>todo = rest, at = Entry, log = lg @ [RunRet w e]\<rparr>)
      | [] \<Rightarrow> if is_closed (errChan p)
              then Some (p, \<lparr>todo = rest, at = Entry, log = lg @ [RunRet w None]\<rparr>)
              else None)"
| "client_solo p (Shutdown # rest) Entry lg =
     (case close_chan (work p) of
        Inl x \<Rightarrow> Some (p, \<lparr>todo = Shutdown # rest, at = Panicked x, log = lg\<rparr>)
      | Inr ch \<Rightarrow> Some (p\<lparr>work := ch\<rparr>, \<lparr>todo = Shutdown # rest, at = CloseErr, log = lg\<rparr>))"
| "client_solo p (Shutdown # rest) CloseErr lg =
     (case close_chan (errChan p) of
        Inl x \<Rightarrow> Some (p, \<lparr>todo = Shutdown # rest, at = Panicked x, log = lg\<rparr>)
      | Inr ch \<Rightarrow> Some (p\<lparr>errChan := ch\<rparr>, \<lparr>todo = Shutdown # rest, at = Wait, log = lg\<rparr>))"
| "client_solo p (Shutdown # rest) Wait lg =
     (if wg p = 0 then Some (p, \<lparr>todo = rest, at = Entry, log = lg @ [ShutdownRet]\<rparr>) else None)"
| "client_solo p _ _ _ = None"

text \<open>
  What a worker can do on its own: take a buffered task, leave the range loop once the
  channel is closed and drained and call \<^verbatim>\<open>Done\<close>, run the task, and for the send of
  the outcome panic on a closed channel or use room in the buffer.
\<close>

fun worker_solo :: "('w \<Rightarrow> error) \<Rightarrow> 'w Pool \<Rightarrow> 'w goroutine \<Rightarrow> ('w Pool \<times> 'w goroutine) option" where
  "worker_solo T p Receiving =
     (case buf (work p) of
        w # ws \<Rightarrow> Some (p\<lparr>work := (work p)\<lparr>buf := ws\<rparr>\<rparr>, InTask w)
      | [] \<Rightarrow> if is_closed (work p)
              then (case wg_Done (wg p) of
                      Inl x \<Rightarrow> Some (p, Crashed x)
                    | Inr c \<Rightarrow> Some (p\<lparr>wg := c\<rparr>, Exited))
              else None)"
| "worker_solo T p (InTask w) = Some (p, Sending (T w))"
| "worker_solo T p (Sending e) =
     (if is_closed (errChan p) then Some (p, Crashed SendOnClosedChannel)
      else if length (buf (errChan p)) < cap (errChan p)
      then Some (p\<lparr>errChan := (errChan p)\<lparr>buf := buf (errChan p) @ [e]\<rparr>\<rparr>, Receiving)
      else None)"
| "worker_solo T p Exited = None"
| "worker_solo T p (Crashed x) = None"

subsection \<open>Rendezvous\<close>

text \<open>
  A send and a receive on an open channel with nothing buffered complete together.
  \<open>handoff\<close> is \<^verbatim>\<open>p.work <- w\<close> of a client meeting the range receive of a worker;
  \<open>reply\<close> is \<^verbatim>\<open>p.errChan <- w.Task()\<close> of a worker meeting \<^verbatim>\<open><-p.errChan\<close> of a client.
\<close>

fun handoff :: "'w Pool \<Rightarrow> 'w call list \<Rightarrow> pc \<Rightarrow> 'w goroutine \<Rightarrow> 'w option" where
  "handoff p (Run w # rest) Entry Receiving =
     (if \<not> is_closed (work p) \<and> buf (work p) = [] then Some w else None)"
| "handoff p _ _ _ = None"

fun reply :: "'w Pool \<Rightarrow> 'w goroutine \<Rightarrow> 'w call list \<Rightarrow> pc \<Rightarrow> ('w \<times> error) option" where
  "reply p (Sending e) (Run w # rest) AwaitErr =
     (if \<not> is_closed (errChan p) \<and> buf (errChan p) = [] then Some (w, e) else None)"
| "reply p _ _ _ = None"

subsection \<open>Steps of the system\<close>

text \<open>
  The scheduler's choice: a rendezvous of client \<open>j\<close> and worker \<open>i\<close> on one of the two
  channels, or a step of one goroutine alone. \<open>step\<close> is \<open>None\<close> when the chosen step
  is not enabled.
\<close>

datatype label = Handoff nat nat | Reply nat nat | Client nat | Worker nat

fun step :: "('w \<Rightarrow> error) \<Rightarrow> label \<Rightarrow> 'w system \<Rightarrow> 'w system option" where
  "step T (Handoff j i) s =
     (if j < length (clients s) \<and> i < length (workers s)
      then (case handoff (pool s) (todo (clients s ! j)) (at (clients s ! j)) (workers s ! i) of
              None \<Rightarrow> None
            | Some w \<Rightarrow> Some (s\<lparr>workers := (workers s)[i := InTask w],
                                clients := (clients s)[j := (clients s ! j)\<lparr>at := AwaitErr\<rparr>]\<rparr>))
      else None)"
| "step T (Reply i j) s =
     (if j < length (clients s) \<and> i < length (workers s)
      then (case reply (pool s) (workers s ! i) (todo (clients s ! j)) (at (clients s ! j)) of
              None \<Rightarrow> None
            | Some (w, e) \<Rightarrow>
                Some (s\<lparr>workers := (workers s)[i := Receiving],
                        clients := (clients s)[j := \<lparr>todo = tl (todo (clients s ! j)), at = Entry,
                                                     log = log (clients s ! j) @ [RunRet w e]\<rparr>]\<rparr>))
      else None)"
| "step T (Client j) s =
     (if j < length (clients s)
      then (case client_solo (pool s) (todo (clients s ! j)) (at (clients s ! j)) (log (clients s ! j)) of
              None \<Rightarrow> None
            | Some (p, c) \<Rightarrow> Some (s\<lparr>pool := p, clients := (clients s)[j := c]\<rparr>))
      else None)"
| "step T (Worker i) s =
     (if i < length (workers s)
      then (case worker_solo T (pool s) (workers s ! i) of
              None \<Rightarrow> None
            | Some (p, g) \<Rightarrow> Some (s\<lparr>pool := p, workers := (workers s)[i := g]\<rparr>))
      else None)"

fun exec :: "('w \<Rightarrow> error) \<Rightarrow> label list \<Rightarrow> 'w system \<Rightarrow> 'w system option" where
  "exec T [] s = Some s"
| "exec T (l # ls) s = (case step T l s of None \<Rightarrow> None | Some s' \<Rightarrow> exec T ls s')"

text \<open>An execution of the program: \<^verbatim>\<open>New\<close>, the clients, then the scheduled steps.\<close>

definition run :: "('w \<Rightarrow> error) \<Rightarrow> int \<Rightarrow> 'w call list list \<Rightarrow> label list \<Rightarrow> 'w system option" where
  "run T maxGoroutines progs ls =
     (case start maxGoroutines progs of Inl x \<Rightarrow> None | Inr s \<Rightarrow> exec T ls s)"

subsection \<open>The sample task\<close>

text \<open>
  The \<^verbatim>\<open>Worker\<close> interface is any type \<open>'w\<close> with a function \<open>T\<close> for its method
  \<^verbatim>\<open>Task\<close>; the steps above take \<open>T\<close> as a parameter. \<^verbatim>\<open>namePrinter\<close> is the
  implementation of the source: its \<^verbatim>\<open>Task\<close> fails for the name \<^verbatim>\<open>jason\<close>. The sleep
  and the log line of \<^verbatim>\<open>Task\<close> do not touch the pool and are left out.
\<close>

record namePrinter =
  name :: string

definition Task :: "namePrinter \<Rightarrow> error" where
  "Task m = (if name m = ''jason'' then Some ''Invalid name'' else None)"

definition np :: "string \<Rightarrow> namePrinter" where
  "np n = \<lparr>name = n\<rparr>"

text \<open>The names the sample driver submits, one goroutine and one \<^verbatim>\<open>Run\<close> call each.\<close>

definition names :: "string list" where
  "names = [''steve'', ''bob'', ''mary'', ''jason'', ''Bob'', ''Lee'', ''Jane'']"

definition main_progs :: "namePrinter call list list" where
  "main_progs = map (\<lambda>n. [Run (np n)]) names"

section \<open>Observations on a state\<close>

text \<open>
  \<open>executing\<close> counts the workers inside \<^verbatim>\<open>Task()\<close>, \<open>exited\<close> those that have left
  their loop through \<^verbatim>\<open>Done\<close>; a worker is \<open>stopped\<close> when it runs no more.
  \<open>shutdown_returned\<close> holds once some \<^verbatim>\<open>Shutdown\<close> call has returned,
  \<open>shutdown_called\<close> once some \<^verbatim>\<open>Shutdown\<close> call is past its first statement.
  A pool is \<open>unbuffered\<close> when both channels have capacity 0 and hold nothing.
\<close>

fun in_task :: "'w goroutine \<Rightarrow> bool" where
  "in_task (InTask w) = True"
| "in_task _ = False"

fun stopped :: "'w goroutine \<Rightarrow> bool" where
  "stopped Exited = True"
| "stopped (Crashed x) = True"
| "stopped _ = False"

definition executing :: "'w system \<Rightarrow> nat" where
  "executing s = length (filter in_task (workers s))"

definition exited :: "'w system \<Rightarrow> nat" where
  "exited s = length (filter (\<lambda>g. g = Exited) (workers s))"

definition shutdown_returned :: "'w system \<Rightarrow> bool" where
  "shutdown_returned s = list_ex (\<lambda>c. ShutdownRet \<in> set (log c)) (clients s)"

fun in_Shutdown :: "'w call list \<Rightarrow> pc \<Rightarrow> bool" where
  "in_Shutdown (Shutdown # rest) a = (a \<noteq> Entry)"
| "in_Shutdown _ a = False"

definition shutdown_called :: "'w system \<Rightarrow> bool" where
  "shutdown_called s =
     list_ex (\<lambda>c. in_Shutdown (todo c) (at c) \<or> ShutdownRet \<in> set (log c)) (clients s)"

definition unbuffered :: "'w Pool \<Rightarrow> bool" where
  "unbuffered p = (cap (work p) = 0 \<and> buf (work p) = [] \<and>
                   cap (errChan p) = 0 \<and> buf (errChan p) = [])"

text \<open>
  A client is \<open>unmatched\<close> when it is not past the send of a \<^verbatim>\<open>Run\<close> and no \<^verbatim>\<open>Run\<close>
  of it has returned.
\<close>

fun is_RunRet :: "'w event \<Rightarrow> bool" where
  "is_RunRet (RunRet w e) = True"
| "is_RunRet ShutdownRet = False"

definition unmatched :: "'w client \<Rightarrow> bool" where
  "unmatched c = (at c \<noteq> AwaitErr \<and> \<not> list_ex is_RunRet (log c))"




text \<open>
  For a single client: a worker is \<open>busy\<close> between the receipt of a task and the
  delivery of its outcome; \<open>holds_only T w\<close> says a worker holds nothing but task \<open>w\<close> or
  its outcome; \<open>own_outcome\<close> says a logged \<^verbatim>\<open>Run\<close> returned the value of its own task;
  \<open>outcome_of\<close> is what a call should log. \<open>seq_inv\<close> is the invariant of a pool used by
  one client, \<open>run_only_inv\<close> the one of a client that only calls \<^verbatim>\<open>Run\<close>, and
  \<open>remaining\<close> counts the steps left until all its calls have returned.
\<close>

fun busy :: "'w goroutine \<Rightarrow> bool" where
  "busy (InTask w) = True"
| "busy (Sending e) = True"
| "busy _ = False"

fun is_Sending :: "'w goroutine \<Rightarrow> bool" where
  "is_Sending (Sending e) = True"
| "is_Sending _ = False"

fun holds_only :: "('w \<Rightarrow> error) \<Rightarrow> 'w \<Rightarrow> 'w goroutine \<Rightarrow> bool" where
  "holds_only T w (InTask w') = (w' = w)"
| "holds_only T w (Sending e) = (e = T w)"
| "holds_only T w _ = True"

fun own_outcome :: "('w \<Rightarrow> error) \<Rightarrow> 'w event \<Rightarrow> bool" where
  "own_outcome T (RunRet w e) = (e = T w)"
| "own_outcome T ShutdownRet = True"

fun outcome_of :: "('w \<Rightarrow> error) \<Rightarrow> 'w call \<Rightarrow> 'w event" where
  "outcome_of T (Run w) = RunRet w (T w)"
| "outcome_of T Shutdown = ShutdownRet"

fun in_flight :: "('w \<Rightarrow> error) \<Rightarrow> 'w call list \<Rightarrow> 'w goroutine list \<Rightarrow> bool" where
  "in_flight T (Run w # rest) gs = list_all (holds_only T w) gs"
| "in_flight T _ gs = False"

definition seq_inv :: "('w \<Rightarrow> error) \<Rightarrow> 'w system \<Rightarrow> bool" where
  "seq_inv T s =
     (length (filter busy (workers s)) = (if at (clients s ! 0) = AwaitErr then 1 else 0) \<and>
      (at (clients s ! 0) = AwaitErr \<longrightarrow>
         \<not> is_closed (errChan (pool s)) \<and> in_flight T (todo (clients s ! 0)) (workers s)) \<and>
      list_all (own_outcome T) (log (clients s ! 0)))"

definition run_only_inv :: "('w \<Rightarrow> error) \<Rightarrow> 'w list \<Rightarrow> 'w system \<Rightarrow> bool" where
  "run_only_inv T ws s =
     (\<not> is_closed (work (pool s)) \<and> \<not> is_closed (errChan (pool s)) \<and>
      list_all (\<lambda>g. \<not> stopped g) (workers s) \<and>
      (at (clients s ! 0) = Entry \<or> at (clients s ! 0) = AwaitErr) \<and>
      log (clients s ! 0) @ map (outcome_of T) (todo (clients s ! 0)) =
        map (\<lambda>w. RunRet w (T w)) ws)"

definition remaining :: "'w system \<Rightarrow> int" where
  "remaining s =
     3 * int (length (todo (clients s ! 0)))
     - (if at (clients s ! 0) = AwaitErr then 1 else 0)
     - int (length (filter is_Sending (workers s)))"

section \<open>Basic facts\<close>

declare New_loop.simps [simp del]

lemma New_loop_eq: "New_loop i m gs = gs @ replicate (nat (m - i)) Receiving"
proof (induction i m gs rule: New_loop.induct)
  case (1 i m gs)
  show ?case
  proof (cases "i < m")
    case True
    then have "nat (m - i) = Suc (nat (m - (i + 1)))" by simp
    with True 1 show ?thesis by (simp add: New_loop.simps[of i m gs] replicate_app_Cons_same)
  next
    case False
    then show ?thesis by (simp add: New_loop.simps[of i m gs])
  qed
qed

lemma int32_id: "- (2 ^ 31) \<le> x \<Longrightarrow> x < 2 ^ 31 \<Longrightarrow> int32 x = x"
  by (simp add: int32_def)

lemma int32_0 [simp]: "int32 0 = 0"
  by (simp add: int32_def)

lemma int32_m1 [simp]: "int32 (- 1) = - 1"
  by (simp add: int32_def)

lemma int32_range: "- (2 ^ 31) \<le> int32 x \<and> int32 x < 2 ^ 31"
proof -
  have "0 \<le> (x + 2 ^ 31) mod 2 ^ 32 \<and> (x + 2 ^ 31) mod 2 ^ 32 < (2 ^ 32 :: int)"
    by simp
  then show ?thesis by (simp add: int32_def)
qed

lemma start_eq: "0 \<le> int32 n \<Longrightarrow> (start n progs :: panic + 'w system) =
   Inr \<lparr>pool = \<lparr>work = make_chan 0, wg = int32 n, errChan = make_chan 0\<rparr>,
        workers = replicate (nat n) Receiving,
        clients = map (\<lambda>cs. \<lparr>todo = cs, at = Entry, log = []\<rparr>) progs\<rparr>"
  by (simp add: start_def New_def wg_Add_def spawn_def New_loop_eq)

lemma start_neg: "int32 n < 0 \<Longrightarrow> (start n progs :: panic + 'w system) = Inl NegativeWaitGroupCounter"
  by (simp add: start_def New_def wg_Add_def)

lemma handoff_Some_iff:
  "handoff p td a g = Some w \<longleftrightarrow>
     (\<exists>rest. td = Run w # rest) \<and> a = Entry \<and> g = Receiving \<and>
     \<not> is_closed (work p) \<and> buf (work p) = []"
  by (cases "(p, td, a, g)" rule: handoff.cases) auto

lemma reply_Some_iff:
  "reply p g td a = Some (w, e) \<longleftrightarrow>
     g = Sending e \<and> (\<exists>rest. td = Run w # rest) \<and> a = AwaitErr \<and>
     \<not> is_closed (errChan p) \<and> buf (errChan p) = []"
  by (cases "(p, g, td, a)" rule: reply.cases) auto

lemma client_solo_elim [consumes 1, case_names send_closed send_buf recv_buf recv_closed
    close_work close_work_panic close_err close_err_panic wait]:
  assumes "client_solo p td a lg = Some (p', c')"
  obtains
    (send_closed) w rest where "td = Run w # rest" "a = Entry" "is_closed (work p)"
      "p' = p" "c' = \<lparr>todo = td, at = Panicked SendOnClosedChannel, log = lg\<rparr>"
  | (send_buf) w rest where "td = Run w # rest" "a = Entry" "\<not> is_closed (work p)"
      "length (buf (work p)) < cap (work p)"
      "p' = p\<lparr>work := (work p)\<lparr>buf := buf (work p) @ [w]\<rparr>\<rparr>"
      "c' = \<lparr>todo = td, at = AwaitErr, log = lg\<rparr>"
  | (recv_buf) w rest e es where "td = Run w # rest" "a = AwaitErr" "buf (errChan p) = e # es"
      "p' = p\<lparr>errChan := (errChan p)\<lparr>buf := es\<rparr>\<rparr>"
      "c' = \<lparr>todo = rest, at = Entry, log = lg @ [RunRet w e]\<rparr>"
  | (recv_closed) w rest where "td = Run w # rest" "a = AwaitErr" "buf (errChan p) = []"
      "is_closed (errChan p)" "p' = p"
      "c' = \<lparr>todo = rest, at = Entry, log = lg @ [RunRet w None]\<rparr>"
  | (close_work) rest where "td = Shutdown # rest" "a = Entry" "\<not> is_closed (work p)"
      "p' = p\<lparr>work := (work p)\<lparr>is_closed := True\<rparr>\<rparr>"
      "c' = \<lparr>todo = td, at = CloseErr, log = lg\<rparr>"
  | (close_work_panic) rest where "td = Shutdown # rest" "a = Entry" "is_closed (work p)"
      "p' = p" "c' = \<lparr>todo = td, at = Panicked CloseOfClosedChannel, log = lg\<rparr>"
  | (close_err) rest where "td = Shutdown # rest" "a = CloseErr" "\<not> is_closed (errChan p)"
      "p' = p\<lparr>errChan := (errChan p)\<lparr>is_closed := True\<rparr>\<rparr>"
      "c' = \<lparr>todo = td, at = Wait, log = lg\<rparr>"
  | (close_err_panic) rest where "td = Shutdown # rest" "a = CloseErr" "is_closed (errChan p)"
      "p' = p" "c' = \<lparr>todo = td, at = Panicked CloseOfClosedChannel, log = lg\<rparr>"
  | (wait) rest where "td = Shutdown # rest" "a = Wait" "wg p = 0"
      "p' = p" "c' = \<lparr>todo = rest, at = Entry, log = lg @ [ShutdownRet]\<rparr>"
  using assms
  by (cases "(p, td, a, lg)" rule: client_solo.cases)
     (auto simp: close_chan_def split: if_splits list.splits)

lemma worker_solo_elim [consumes 1, case_names take_buf exit exit_panic task send_closed send_buf]:
  assumes "worker_solo T p g = Some (p', g')"
  obtains
    (take_buf) w ws where "g = Receiving" "buf (work p) = w # ws"
      "p' = p\<lparr>work := (work p)\<lparr>buf := ws\<rparr>\<rparr>" "g' = InTask w"
  | (exit) "g = Receiving" "buf (work p) = []" "is_closed (work p)" "0 \<le> int32 (wg p - 1)"
      "p' = p\<lparr>wg := int32 (wg p - 1)\<rparr>" "g' = Exited"
  | (exit_panic) "g = Receiving" "buf (work p) = []" "is_closed (work p)" "int32 (wg p - 1) < 0"
      "p' = p" "g' = Crashed NegativeWaitGroupCounter"
  | (task) w where "g = InTask w" "p' = p" "g' = Sending (T w)"
  | (send_closed) e where "g = Sending e" "is_closed (errChan p)" "p' = p"
      "g' = Crashed SendOnClosedChannel"
  | (send_buf) e where "g = Sending e" "\<not> is_closed (errChan p)"
      "length (buf (errChan p)) < cap (errChan p)"
      "p' = p\<lparr>errChan := (errChan p)\<lparr>buf := buf (errChan p) @ [e]\<rparr>\<rparr>" "g' = Receiving"
  using assms
  by (cases g) (auto simp: wg_Done_def wg_Add_def split: if_splits list.splits)


lemma client_at_update:
  "todo (c :: 'w client) = td \<Longrightarrow> \<lparr>todo = td, at = a, log = log c\<rparr> = c\<lparr>at := a\<rparr>"
  by (cases c) simp

lemma step_cases [consumes 1, case_names handoff reply send_closed send_buf recv_buf recv_closed
    close_work close_work_panic close_err close_err_panic wait
    take_buf exit exit_panic task send_err_closed send_err_buf]:
  assumes "step T l s = Some s'"
  obtains
    (handoff) j i w rest where "l = Handoff j i" "j < length (clients s)" "i < length (workers s)"
      "todo (clients s ! j) = Run w # rest" "at (clients s ! j) = Entry"
      "workers s ! i = Receiving" "\<not> is_closed (work (pool s))" "buf (work (pool s)) = []"
      "pool s' = pool s" "workers s' = (workers s)[i := InTask w]"
      "clients s' = (clients s)[j := (clients s ! j)\<lparr>at := AwaitErr\<rparr>]"
  | (reply) i j w rest e where "l = Reply i j" "j < length (clients s)" "i < length (workers s)"
      "workers s ! i = Sending e" "todo (clients s ! j) = Run w # rest"
      "at (clients s ! j) = AwaitErr"
      "\<not> is_closed (errChan (pool s))" "buf (errChan (pool s)) = []"
      "pool s' = pool s" "workers s' = (workers s)[i := Receiving]"
      "clients s' = (clients s)[j := \<lparr>todo = rest, at = Entry,
                                          log = log (clients s ! j) @ [RunRet w e]\<rparr>]"
  | (send_closed) j w rest where "l = Client j" "j < length (clients s)"
      "todo (clients s ! j) = Run w # rest" "at (clients s ! j) = Entry"
      "is_closed (work (pool s))"
      "pool s' = pool s" "workers s' = workers s"
      "clients s' = (clients s)[j := (clients s ! j)\<lparr>at := Panicked SendOnClosedChannel\<rparr>]"
  | (send_buf) j w rest where "l = Client j" "j < length (clients s)"
      "todo (clients s ! j) = Run w # rest" "at (clients s ! j) = Entry"
      "\<not> is_closed (work (pool s))" "length (buf (work (pool s))) < cap (work (pool s))"
      "pool s' = (pool s)\<lparr>work := (work (pool s))\<lparr>buf := buf (work (pool s)) @ [w]\<rparr>\<rparr>"
      "workers s' = workers s"
      "clients s' = (clients s)[j := (clients s ! j)\<lparr>at := AwaitErr\<rparr>]"
  | (recv_buf) j w rest e es where "l = Client j" "j < length (clients s)"
      "todo (clients s ! j) = Run w # rest" "at (clients s ! j) = AwaitErr"
      "buf (errChan (pool s)) = e # es"
      "pool s' = (pool s)\<lparr>errChan := (errChan (pool s))\<lparr>buf := es\<rparr>\<rparr>"
      "workers s' = workers s"
      "clients s' = (clients s)[j := \<lparr>todo = rest, at = Entry,
                                          log = log (clients s ! j) @ [RunRet w e]\<rparr>]"
  | (recv_closed) j w rest where "l = Client j" "j < length (clients s)"
      "todo (clients s ! j) = Run w # rest" "at (clients s ! j) = AwaitErr"
      "buf (errChan (pool s)) = []" "is_closed (errChan (pool s))"
      "pool s' = pool s" "workers s' = workers s"
      "clients s' = (clients s)[j := \<lparr>todo = rest, at = Entry,
                                          log = log (clients s ! j) @ [RunRet w None]\<rparr>]"
  | (close_work) j rest where "l = Client j" "j < length (clients s)"
      "todo (clients s ! j) = Shutdown # rest" "at (clients s ! j) = Entry"
      "\<not> is_closed (work (pool s))"
      "pool s' = (pool s)\<lparr>work := (work (pool s))\<lparr>is_closed := True\<rparr>\<rparr>"
      "workers s' = workers s"
      "clients s' = (clients s)[j := (clients s ! j)\<lparr>at := CloseErr\<rparr>]"
  | (close_work_panic) j rest where "l = Client j" "j < length (clients s)"
      "todo (clients s ! j) = Shutdown # rest" "at (clients s ! j) = Entry"
      "is_closed (work (pool s))"
      "pool s' = pool s" "workers s' = workers s"
      "clients s' = (clients s)[j := (clients s ! j)\<lparr>at := Panicked CloseOfClosedChannel\<rparr>]"
  | (close_err) j rest where "l = Client j" "j < length (clients s)"
      "todo (clients s ! j) = Shutdown # rest" "at (clients s ! j) = CloseErr"
      "\<not> is_closed (errChan (pool s))"
      "pool s' = (pool s)\<lparr>errChan := (errChan (pool s))\<lparr>is_closed := True\<rparr>\<rparr>"
      "workers s' = workers s"
      "clients s' = (clients s)[j := (clients s ! j)\<lparr>at := Wait\<rparr>]"
  | (close_err_panic) j rest where "l = Client j" "j < length (clients s)"
      "todo (clients s ! j) = Shutdown # rest" "at (clients s ! j) = CloseErr"
      "is_closed (errChan (pool s))"
      "pool s' = pool s" "workers s' = workers s"
      "clients s' = (clients s)[j := (clients s ! j)\<lparr>at := Panicked CloseOfClosedChannel\<rparr>]"
  | (wait) j rest where "l = Client j" "j < length (clients s)"
      "todo (clients s ! j) = Shutdown # rest" "at (clients s ! j) = Wait"
      "wg (pool s) = 0"
      "pool s' = pool s" "workers s' = workers s"
      "clients s' = (clients s)[j := \<lparr>todo = rest, at = Entry,
                                          log = log (clients s ! j) @ [ShutdownRet]\<rparr>]"
  | (take_buf) i w ws where "l = Worker i" "i < length (workers s)"
      "workers s ! i = Receiving" "buf (work (pool s)) = w # ws"
      "pool s' = (pool s)\<lparr>work := (work (pool s))\<lparr>buf := ws\<rparr>\<rparr>"
      "workers s' = (workers s)[i := InTask w]" "clients s' = clients s"
  | (exit) i where "l = Worker i" "i < length (workers s)"
      "workers s ! i = Receiving" "buf (work (pool s)) = []" "is_closed (work (pool s))"
      "0 \<le> int32 (wg (pool s) - 1)"
      "pool s' = (pool s)\<lparr>wg := int32 (wg (pool s) - 1)\<rparr>"
      "workers s' = (workers s)[i := Exited]" "clients s' = clients s"
  | (exit_panic) i where "l = Worker i" "i < length (workers s)"
      "workers s ! i = Receiving" "buf (work (pool s)) = []" "is_closed (work (pool s))"
      "int32 (wg (pool s) - 1) < 0"
      "pool s' = pool s"
      "workers s' = (workers s)[i := Crashed NegativeWaitGroupCounter]" "clients s' = clients s"
  | (task) i w where "l = Worker i" "i < length (workers s)"
      "workers s ! i = InTask w"
      "pool s' = pool s" "workers s' = (workers s)[i := Sending (T w)]" "clients s' = clients s"
  | (send_err_closed) i e where "l = Worker i" "i < length (workers s)"
      "workers s ! i = Sending e" "is_closed (errChan (pool s))"
      "pool s' = pool s" "workers s' = (workers s)[i := Crashed SendOnClosedChannel]"
      "clients s' = clients s"
  | (send_err_buf) i e where "l = Worker i" "i < length (workers s)"
      "workers s ! i = Sending e" "\<not> is_closed (errChan (pool s))"
      "length (buf (errChan (pool s))) < cap (errChan (pool s))"
      "pool s' = (pool s)\<lparr>errChan := (errChan (pool s))\<lparr>buf := buf (errChan (pool s)) @ [e]\<rparr>\<rparr>"
      "workers s' = (workers s)[i := Receiving]" "clients s' = clients s"
proof (cases l)
  case (Handoff j i)
  with assms obtain w where j: "j < length (clients s)" and i: "i < length (workers s)"
    and h: "handoff (pool s) (todo (clients s ! j)) (at (clients s ! j)) (workers s ! i) = Some w"
    and s': "s' = s\<lparr>workers := (workers s)[i := InTask w],
                     clients := (clients s)[j := (clients s ! j)\<lparr>at := AwaitErr\<rparr>]\<rparr>"
    by (auto split: if_splits option.splits)
  from h obtain rest where "todo (clients s ! j) = Run w # rest" "at (clients s ! j) = Entry"
    "workers s ! i = Receiving" "\<not> is_closed (work (pool s))" "buf (work (pool s)) = []"
    by (auto simp: handoff_Some_iff)
  with Handoff j i s' show ?thesis by (intro that(1)) auto
next
  case (Reply i j)
  with assms obtain w e where j: "j < length (clients s)" and i: "i < length (workers s)"
    and h: "reply (pool s) (workers s ! i) (todo (clients s ! j)) (at (clients s ! j)) = Some (w, e)"
    and s': "s' = s\<lparr>workers := (workers s)[i := Receiving],
                     clients := (clients s)[j := \<lparr>todo = tl (todo (clients s ! j)), at = Entry,
                                                  log = log (clients s ! j) @ [RunRet w e]\<rparr>]\<rparr>"
    by (auto split: if_splits option.splits)
  from h obtain rest where "workers s ! i = Sending e" "todo (clients s ! j) = Run w # rest"
    "at (clients s ! j) = AwaitErr" "\<not> is_closed (errChan (pool s))"
    "buf (errChan (pool s)) = []"
    by (auto simp: reply_Some_iff)
  with Reply j i s' show ?thesis by (intro that(2)) auto
next
  case (Client j)
  with assms obtain p' c' where j: "j < length (clients s)"
    and cs: "client_solo (pool s) (todo (clients s ! j)) (at (clients s ! j)) (log (clients s ! j)) = Some (p', c')"
    and s': "s' = s\<lparr>pool := p', clients := (clients s)[j := c']\<rparr>"
    by (auto split: if_splits option.splits)
  from cs show ?thesis
  proof (cases rule: client_solo_elim)
    case (send_closed w rest)
    with Client j s' show ?thesis by (intro that(3)) (auto simp: client_at_update)
  next
    case (send_buf w rest)
    with Client j s' show ?thesis by (intro that(4)) (auto simp: client_at_update)
  next
    case (recv_buf w rest e es)
    with Client j s' show ?thesis by (intro that(5)) (auto simp: client_at_update)
  next
    case (recv_closed w rest)
    with Client j s' show ?thesis by (intro that(6)) (auto simp: client_at_update)
  next
    case (close_work rest)
    with Client j s' show ?thesis by (intro that(7)) (auto simp: client_at_update)
  next
    case (close_work_panic rest)
    with Client j s' show ?thesis by (intro that(8)) (auto simp: client_at_update)
  next
    case (close_err rest)
    with Client j s' show ?thesis by (intro that(9)) (auto simp: client_at_update)
  next
    case (close_err_panic rest)
    with Client j s' show ?thesis by (intro that(10)) (auto simp: client_at_update)
  next
    case (wait rest)
    with Client j s' show ?thesis by (intro that(11)) (auto simp: client_at_update)
  qed
next
  case (Worker i)
  with assms obtain p' g' where i: "i < length (workers s)"
    and ws: "worker_solo T (pool s) (workers s ! i) = Some (p', g')"
    and s': "s' = s\<lparr>pool := p', workers := (workers s)[i := g']\<rparr>"
    by (auto split: if_splits option.splits)
  from ws show ?thesis
  proof (cases rule: worker_solo_elim)
    case (take_buf w ws)
    with Worker i s' show ?thesis by (intro that(12)) auto
  next
    case exit
    with Worker i s' show ?thesis by (intro that(13)) auto
  next
    case exit_panic
    with Worker i s' show ?thesis by (intro that(14)) auto
  next
    case (task w)
    with Worker i s' show ?thesis by (intro that(15)) auto
  next
    case (send_closed e)
    with Worker i s' show ?thesis by (intro that(16)) auto
  next
    case (send_buf e)
    with Worker i s' show ?thesis by (intro that(17)) auto
  qed
qed

lemma exec_invariant:
  assumes "exec T ls s0 = Some s" and "P s0"
    and "\<And>l s s'. P s \<Longrightarrow> step T l s = Some s' \<Longrightarrow> P s'"
  shows "P s"
  using assms(1,2)
proof (induction ls arbitrary: s0)
  case Nil
  then show ?case by simp
next
  case (Cons l ls)
  then show ?case by (auto split: option.splits dest: assms(3))
qed

declare step.simps [simp del]

lemma length_filter_update:
  "i < length xs \<Longrightarrow>
     length (filter P (xs[i := y])) + (if P (xs ! i) then 1 else 0) =
     length (filter P xs) + (if P y then 1 else 0)"
proof (induction xs arbitrary: i)
  case Nil
  then show ?case by simp
next
  case (Cons x xs)
  then show ?case by (cases i) auto
qed

lemma step_unbuffered:
  assumes "step T l s = Some s'" "unbuffered (pool s)"
  shows "unbuffered (pool s')"
  using assms by (cases rule: step_cases) (auto simp: unbuffered_def)

lemma step_length_workers:
  assumes "step T l s = Some s'"
  shows "length (workers s') = length (workers s)"
  using assms by (cases rule: step_cases) auto

lemma step_length_clients:
  assumes "step T l s = Some s'"
  shows "length (clients s') = length (clients s)"
  using assms by (cases rule: step_cases) auto

lemma step_closed_mono:
  assumes "step T l s = Some s'"
  shows "(is_closed (work (pool s)) \<longrightarrow> is_closed (work (pool s'))) \<and>
         (is_closed (errChan (pool s)) \<longrightarrow> is_closed (errChan (pool s')))"
  using assms by (cases rule: step_cases) auto

lemma step_err_closed_work_closed:
  assumes "step T l s = Some s'" "is_closed (errChan (pool s)) \<longrightarrow> is_closed (work (pool s))"
    "\<forall>c \<in> set (clients s). at c = CloseErr \<longrightarrow> is_closed (work (pool s))"
  shows "(is_closed (errChan (pool s')) \<longrightarrow> is_closed (work (pool s'))) \<and> 
     (\<forall>c \<in> set (clients s'). at c = CloseErr \<longrightarrow> is_closed (work (pool s')))"
  using assms by (cases rule: step_cases) (auto dest!: set_update_subset_insert[THEN subsetD])

lemma length_filter_update_same:
  "i < length xs \<Longrightarrow> P (xs ! i) = P y \<Longrightarrow> length (filter P (xs[i := y])) = length (filter P xs)"
  using length_filter_update[of i xs P y] by (simp split: if_splits)

lemma length_filter_update_gain:
  "i < length xs \<Longrightarrow> \<not> P (xs ! i) \<Longrightarrow> P y \<Longrightarrow>
     length (filter P (xs[i := y])) = Suc (length (filter P xs))"
  using length_filter_update[of i xs P y] by simp

lemma int32_pred:
  assumes "0 \<le> v" "v < 2 ^ 31" "0 \<le> int32 (v - 1)"
  shows "0 < v \<and> int32 (v - 1) = v - 1"
proof (cases "v = 0")
  case True
  with assms(3) show ?thesis by (simp add: int32_def)
next
  case False
  with assms(1,2) show ?thesis by (simp add: int32_id)
qed

lemma step_wg:
  assumes "step T l s = Some s'"
    "wg (pool s) = W - int (exited s) \<and> 0 \<le> wg (pool s) \<and> wg (pool s) < 2 ^ 31"
  shows "wg (pool s') = W - int (exited s') \<and> 0 \<le> wg (pool s') \<and> wg (pool s') < 2 ^ 31"
  using assms(1)
proof (cases rule: step_cases)
  case (exit i)
  with assms(2) int32_pred[of "wg (pool s)"]
  have "0 < wg (pool s)" "int32 (wg (pool s) - 1) = wg (pool s) - 1"
    by simp_all
  with exit assms(2) show ?thesis
    by (simp add: exited_def length_filter_update_gain)
qed (use assms(2) in \<open>simp_all add: exited_def length_filter_update_same\<close>)

lemma run_Some_iff:
  "run T N progs ls = Some s \<longleftrightarrow>
     0 \<le> int32 N \<and>
     exec T ls \<lparr>pool = \<lparr>work = make_chan 0, wg = int32 N, errChan = make_chan 0\<rparr>,
                workers = replicate (nat N) Receiving,
                clients = map (\<lambda>cs. \<lparr>todo = cs, at = Entry, log = []\<rparr>) progs\<rparr> = Some s"
  by (cases "0 \<le> int32 N") (simp_all add: run_def start_eq start_neg)

lemma run_invariant:
  assumes "run T N progs ls = Some s"
    and "\<And>s0. start N progs = Inr s0 \<Longrightarrow> P s0"
    and "\<And>l s s'. P s \<Longrightarrow> step T l s = Some s' \<Longrightarrow> P s'"
  shows "P s"
proof -
  from assms(1) obtain s0 where s0: "start N progs = Inr s0" "exec T ls s0 = Some s"
    by (auto simp: run_def split: sum.splits)
  from s0(2) assms(2)[OF s0(1)] assms(3) show ?thesis by (rule exec_invariant)
qed

lemma run_length_workers:
  assumes "run T N progs ls = Some s"
  shows "length (workers s) = nat N"
proof -
  from assms have N: "0 \<le> int32 N" by (simp add: run_Some_iff)
  show "length (workers s) = nat N"
    using assms
  proof (rule run_invariant)
    fix s0 :: "'a system" assume "start N progs = Inr s0"
    with N show "length (workers s0) = nat N" by (auto simp: start_eq)
  qed (simp add: step_length_workers)
qed

section \<open>Bounded concurrency\<close>

text \<open>
  C2. For a pool made by \<^verbatim>\<open>New(N)\<close> with \<open>N \<ge> 1\<close>, whatever calls the clients make
  and however the goroutines are scheduled, at most \<open>N\<close> workers are inside
  \<^verbatim>\<open>Task()\<close> in any state the system reaches.
\<close>

theorem at_most_N_executing:
  "1 \<le> N \<Longrightarrow> run T N progs ls = Some s \<Longrightarrow> int (executing s) \<le> N"
proof -
  assume N: "1 \<le> N" and r: "run T N progs ls = Some s"
  have "executing s \<le> length (workers s)" by (simp add: executing_def)
  with run_length_workers[OF r] N show ?thesis by linarith
qed



text \<open>The sample driver's seven submissions on a pool of two: two tasks run at once.\<close>

theorem at_most_N_executing_witness:
  "(1::int) \<le> 2 \<and>
   (\<exists>s. run Task 2 main_progs [Handoff 0 0, Handoff 1 1] = Some s \<and>
        executing s = 2 \<and> int (executing s) \<le> 2)"
proof -
  have "map_option executing (run Task 2 main_progs [Handoff 0 0, Handoff 1 1]) = Some 2"
    by code_simp
  then obtain s where s: "run Task 2 main_progs [Handoff 0 0, Handoff 1 1] = Some s"
    and e: "executing s = 2" by auto
  from at_most_N_executing[OF _ s] e s show ?thesis by simp
qed

lemma list_ex_update:
  "list_ex P (xs[j := c]) \<Longrightarrow> P c \<or> list_ex P xs"
  by (auto simp: list_ex_iff dest!: set_update_subset_insert[THEN subsetD])

lemma list_ex_nth: "j < length xs \<Longrightarrow> P (xs ! j) \<Longrightarrow> list_ex P xs"
  by (auto simp: list_ex_iff)

lemma in_Shutdown_Entry [simp]: "\<not> in_Shutdown td Entry"
  by (cases "(td, Entry)" rule: in_Shutdown.cases) auto

lemma step_shutdown_called:
  assumes "step T l s = Some s'" "shutdown_called s \<longrightarrow> is_closed (work (pool s))"
  shows "shutdown_called s' \<longrightarrow> is_closed (work (pool s'))"
  using assms
  by (cases rule: step_cases)
     (auto simp: shutdown_called_def dest!: list_ex_update intro: list_ex_nth)

lemma shutdown_returned_called: "shutdown_returned s \<Longrightarrow> shutdown_called s"
  by (auto simp: shutdown_returned_def shutdown_called_def list_ex_iff)

lemma step_shutdown_returned:
  assumes "step T l s = Some s'" "shutdown_returned s \<longrightarrow> wg (pool s) = 0"
  shows "shutdown_returned s' \<longrightarrow> wg (pool s') = 0"
  using assms
  by (cases rule: step_cases)
     (auto simp: shutdown_returned_def dest!: list_ex_update intro: list_ex_nth)

lemma all_exited:
  assumes "length (workers s) = nat N" "wg (pool s) = N - int (exited s)" "wg (pool s) = 0"
    "0 \<le> N"
  shows "list_all (\<lambda>g. g = Exited) (workers s)"
  unfolding list_all_iff
proof
  fix g assume g: "g \<in> set (workers s)"
  from assms have eq: "length (filter (\<lambda>g. g = Exited) (workers s)) = length (workers s)"
    by (simp add: exited_def)
  show "g = Exited"
  proof (rule ccontr)
    assume "g \<noteq> Exited"
    with g have "length (filter (\<lambda>g. g = Exited) (workers s)) < length (workers s)"
      by (intro length_filter_less) auto
    with eq show False by simp
  qed
qed


lemma all_exited_bounded:
  assumes "length (workers s) = nat N" "wg (pool s) = int32 N - int (exited s)"
    "wg (pool s) = 0" "N < 2 ^ 31"
  shows "list_all (\<lambda>g. g = Exited) (workers s)"
proof (cases "0 \<le> N")
  case True
  with assms(4) have "int32 N = N" by (simp add: int32_id)
  with assms True show ?thesis by (intro all_exited[of s N]) simp_all
next
  case False
  with assms(1) show ?thesis by simp
qed

lemma exec_append:
  "exec T (ls @ ls') s = (case exec T ls s of None \<Rightarrow> None | Some s' \<Rightarrow> exec T ls' s')"
  by (induction ls arbitrary: s) (auto split: option.splits)

lemma run_snoc:
  "run T N progs (ls @ [l]) = (case run T N progs ls of None \<Rightarrow> None | Some s \<Rightarrow> step T l s)"
  by (auto simp: run_def exec_append split: sum.splits option.splits)

lemma run_wg:
  assumes "run T N progs ls = Some s"
  shows "wg (pool s) = int32 N - int (exited s) \<and> 0 \<le> wg (pool s) \<and> wg (pool s) < 2 ^ 31"
  using assms
proof (rule run_invariant)
  fix s0 :: "'a system" assume "start N progs = Inr s0"
  moreover from assms have "0 \<le> int32 N" by (simp add: run_Some_iff)
  ultimately show "wg (pool s0) = int32 N - int (exited s0) \<and> 0 \<le> wg (pool s0) \<and>
      wg (pool s0) < 2 ^ 31"
    using int32_range[of N] by (auto simp: start_eq exited_def)
qed (rule step_wg)

lemma run_shutdown_called:
  assumes "run T N progs ls = Some s"
  shows "shutdown_called s \<longrightarrow> is_closed (work (pool s))"
  using assms
proof (rule run_invariant)
  fix s0 :: "'a system" assume "start N progs = Inr s0"
  moreover from assms have "0 \<le> int32 N" by (simp add: run_Some_iff)
  ultimately show "shutdown_called s0 \<longrightarrow> is_closed (work (pool s0))"
    by (auto simp: start_eq shutdown_called_def list_ex_iff)
qed (rule step_shutdown_called)

lemma run_shutdown_returned:
  assumes "run T N progs ls = Some s"
  shows "shutdown_returned s \<longrightarrow> wg (pool s) = 0"
  using assms
proof (rule run_invariant)
  fix s0 :: "'a system" assume "start N progs = Inr s0"
  moreover from assms have "0 \<le> int32 N" by (simp add: run_Some_iff)
  ultimately show "shutdown_returned s0 \<longrightarrow> wg (pool s0) = 0"
    by (auto simp: start_eq shutdown_returned_def list_ex_iff)
qed (rule step_shutdown_returned)

section \<open>Shutdown\<close>

lemma early_return_exec:
  assumes "2 \<le> n"
  shows "map_option (\<lambda>s. (shutdown_returned s, workers s ! 0, workers s ! 1, length (workers s)))
     (exec T [Client 0, Client 0, Worker 0, Client 0]
        \<lparr>pool = \<lparr>work = make_chan 0, wg = 1, errChan = make_chan 0\<rparr>,
         workers = replicate n Receiving,
         clients = [\<lparr>todo = [Shutdown], at = Entry, log = []\<rparr>]\<rparr>)
   = Some (True, Exited, Receiving, n)"
  using assms
  by (simp add: step.simps make_chan_def close_chan_def wg_Done_def wg_Add_def
                shutdown_returned_def)

text \<open>
  C4 says of every pool that no worker is active once \<^verbatim>\<open>Shutdown\<close> has returned. The
  barrier has 32 bits, so this fails for a pool larger than the barrier can count:
  \<^verbatim>\<open>New(2^32 + 1)\<close> starts \<open>2^32 + 1\<close> workers with the barrier at 1. After
  \<^verbatim>\<open>Shutdown\<close> has closed the two channels, the \<^verbatim>\<open>Done\<close> of the first worker that leaves
  its loop brings the barrier to 0, \<^verbatim>\<open>Wait\<close> passes and \<^verbatim>\<open>Shutdown\<close> returns, while
  the second worker (and every other) is still in its range receive.
\<close>

theorem Shutdown_returns_with_workers_active:
  "map_option (\<lambda>s. (shutdown_returned s, workers s ! 0, workers s ! 1, length (workers s)))
     (run Task 4294967297 [[Shutdown]] [Client 0, Client 0, Worker 0, Client 0])
   = Some (True, Exited, Receiving, 4294967297)"
proof -
  have i: "int32 4294967297 = 1" by (simp add: int32_def)
  have n: "2 \<le> nat 4294967297" by simp
  have r: "run Task 4294967297 [[Shutdown]] [Client 0, Client 0, Worker 0, Client 0]
    = exec Task [Client 0, Client 0, Worker 0, Client 0]
        \<lparr>pool = \<lparr>work = make_chan 0, wg = 1, errChan = make_chan 0\<rparr>,
         workers = replicate (nat 4294967297) Receiving,
         clients = [\<lparr>todo = [Shutdown], at = Entry, log = []\<rparr>]\<rparr>"
    by (simp add: run_def start_eq i del: exec.simps)
  have e: "map_option (\<lambda>s. (shutdown_returned s, workers s ! 0, workers s ! 1, length (workers s)))
     (exec Task [Client 0, Client 0, Worker 0, Client 0]
        \<lparr>pool = \<lparr>work = make_chan 0, wg = 1, errChan = make_chan 0\<rparr>,
         workers = replicate (nat 4294967297) Receiving,
         clients = [\<lparr>todo = [Shutdown], at = Entry, log = []\<rparr>]\<rparr>)
   = Some (True, Exited, Receiving, nat 4294967297)"
    by (rule early_return_exec[OF n])
  show ?thesis
    unfolding r using e by (simp only: nat_numeral)
qed

text \<open>
  C4, for pools the barrier can count. For \<^verbatim>\<open>New(N)\<close> with \<open>N < 2^31\<close>, \<^verbatim>\<open>Shutdown\<close>
  closes the handoff channel and does not return before all \<open>N\<close> workers have left
  their loops: once some \<^verbatim>\<open>Shutdown\<close> call has returned, the handoff channel is closed
  and every one of the \<open>N\<close> workers has exited; \<^verbatim>\<open>Wait\<close> lets a caller pass only in
  such a state; and after the first statement of \<^verbatim>\<open>Shutdown\<close> the handoff channel is
  closed.
\<close>

theorem Shutdown_waits_for_workers:
  assumes "N < 2 ^ 31" "run T N progs ls = Some s"
  shows "(shutdown_returned s \<longrightarrow>
            is_closed (work (pool s)) \<and> list_all (\<lambda>g. g = Exited) (workers s) \<and>
            length (workers s) = nat N) \<and>
         (\<forall>j s'. j < length (clients s) \<and> at (clients s ! j) = Wait \<and>
                 step T (Client j) s = Some s' \<longrightarrow>
                   list_all (\<lambda>g. g = Exited) (workers s) \<and> is_closed (work (pool s)) \<and>
                   shutdown_returned s') \<and>
         (\<forall>j rest s'. j < length (clients s) \<and> todo (clients s ! j) = Shutdown # rest \<and>
                 at (clients s ! j) = Entry \<and> step T (Client j) s = Some s' \<longrightarrow>
                   is_closed (work (pool s')))"
proof (intro conjI allI impI)
  note run = assms(2) and bound = assms(1)
  note len = run_length_workers[OF run] and wgc = run_wg[OF run]
  {
    assume r: "shutdown_returned s"
    with run_shutdown_returned[OF run] have z: "wg (pool s) = 0" by simp
    from r run_shutdown_called[OF run] show "is_closed (work (pool s))"
      by (simp add: shutdown_returned_called)
    from len wgc z bound show "list_all (\<lambda>g. g = Exited) (workers s)"
      by (intro all_exited_bounded[of s N]) auto
    from len show "length (workers s) = nat N" by simp
  }
  {
    fix j s'
    assume a: "j < length (clients s) \<and> at (clients s ! j) = Wait \<and> step T (Client j) s = Some s'"
    then have st: "step T (Client j) s = Some s'" by blast
    from st a obtain rest where f: "todo (clients s ! j) = Shutdown # rest" "wg (pool s) = 0"
      "clients s' = (clients s)[j := \<lparr>todo = rest, at = Entry,
                                          log = log (clients s ! j) @ [ShutdownRet]\<rparr>]"
      by (cases rule: step_cases) auto
    from a f(1) have "shutdown_called s"
      unfolding shutdown_called_def by (intro list_ex_nth[of j]) auto
    moreover from a f(3) have "shutdown_returned s'"
      unfolding shutdown_returned_def by (intro list_ex_nth[of j]) auto
    ultimately have w: "wg (pool s) = 0 \<and> shutdown_called s \<and> shutdown_returned s'"
      using f(2) by simp
    with len wgc bound show "list_all (\<lambda>g. g = Exited) (workers s)"
      by (intro all_exited_bounded[of s N]) auto
    from w run_shutdown_called[OF run] show "is_closed (work (pool s))" by simp
    from w show "shutdown_returned s'" by simp
  }
  {
    fix j rest s'
    assume a: "j < length (clients s) \<and> todo (clients s ! j) = Shutdown # rest \<and>
                 at (clients s ! j) = Entry \<and> step T (Client j) s = Some s'"
    then have st: "step T (Client j) s = Some s'" by blast
    from st a show "is_closed (work (pool s'))"
      by (cases rule: step_cases) auto
  }
qed


lemma run_snoc_SomeD:
  "run T N progs (ls @ [l]) = Some s' \<Longrightarrow> \<exists>s. run T N progs ls = Some s \<and> step T l s = Some s'"
  by (auto simp: run_snoc split: option.splits)

text \<open>One client runs a task and shuts the pool of two workers down.\<close>

theorem Shutdown_waits_for_workers_witness:
  "(2::int) < 2 ^ 31 \<and>
   (\<exists>s0 s1 s s'.
     run Task 2 [[Run (np ''steve''), Shutdown]] [Handoff 0 0, Worker 0, Reply 0 0] = Some s0 \<and>
     todo (clients s0 ! 0) = [Shutdown] \<and> at (clients s0 ! 0) = Entry \<and>
     step Task (Client 0) s0 = Some s1 \<and> is_closed (work (pool s1)) \<and>
     run Task 2 [[Run (np ''steve''), Shutdown]]
       [Handoff 0 0, Worker 0, Reply 0 0, Client 0, Client 0, Worker 0, Worker 1] = Some s \<and>
     at (clients s ! 0) = Wait \<and> step Task (Client 0) s = Some s' \<and>
     list_all (\<lambda>g. g = Exited) (workers s) \<and>
     shutdown_returned s' \<and> is_closed (work (pool s')) \<and>
     list_all (\<lambda>g. g = Exited) (workers s') \<and> length (workers s') = 2)"
proof -
  let ?P = "[[Run (np ''steve''), Shutdown]]"
  let ?l0 = "[Handoff 0 0, Worker 0, Reply 0 0]"
  let ?l7 = "[Handoff 0 0, Worker 0, Reply 0 0, Client 0, Client 0, Worker 0, Worker 1]"
  have "map_option (\<lambda>s. (todo (clients s ! 0), at (clients s ! 0), length (clients s)))
          (run Task 2 ?P ?l0) = Some ([Shutdown], Entry, 1)"
    by code_simp
  then obtain s0 where s0: "run Task 2 ?P ?l0 = Some s0" "todo (clients s0 ! 0) = [Shutdown]"
    "at (clients s0 ! 0) = Entry" "length (clients s0) = 1"
    by auto
  have "map_option (\<lambda>s. ()) (run Task 2 ?P (?l0 @ [Client 0])) = Some ()"
    by code_simp
  then obtain z where "run Task 2 ?P (?l0 @ [Client 0]) = Some z"
    by blast
  from run_snoc_SomeD[OF this] s0(1) obtain s1 where s1: "step Task (Client 0) s0 = Some s1"
    by auto
  have "map_option (\<lambda>s. (at (clients s ! 0), length (clients s))) (run Task 2 ?P ?l7) = Some (Wait, 1)"
    by code_simp
  then obtain s where s: "run Task 2 ?P ?l7 = Some s" "at (clients s ! 0) = Wait"
    "length (clients s) = 1"
    by auto
  have "map_option shutdown_returned (run Task 2 ?P (?l7 @ [Client 0])) = Some True"
    by code_simp
  then obtain s' where r': "run Task 2 ?P (?l7 @ [Client 0]) = Some s'" "shutdown_returned s'"
    by blast
  from run_snoc_SomeD[OF r'(1)] s(1) r' have s': "step Task (Client 0) s = Some s'"
    "run Task 2 ?P (?l7 @ [Client 0]) = Some s'" "shutdown_returned s'"
    by auto
  have bound: "(2::int) < 2 ^ 31" by simp
  from Shutdown_waits_for_workers[OF bound s0(1)] s0 s1 have c1: "is_closed (work (pool s1))"
    by auto
  from Shutdown_waits_for_workers[OF bound s(1)] s s' have c2: "list_all (\<lambda>g. g = Exited) (workers s)"
    by auto
  from Shutdown_waits_for_workers[OF bound s'(2)] s'(3)
  have c3: "is_closed (work (pool s')) \<and> list_all (\<lambda>g. g = Exited) (workers s') \<and>
            length (workers s') = 2"
    by auto
  from bound s0 s1 s s' c1 c2 c3 show ?thesis by blast
qed

section \<open>Misuse after Shutdown\<close>

lemma step_Client_send_closed:
  assumes "j < length (clients s)" "todo (clients s ! j) = Run w # rest"
    "at (clients s ! j) = Entry" "is_closed (work (pool s))"
  shows "step T (Client j) s =
    Some (s\<lparr>clients := (clients s)[j := (clients s ! j)\<lparr>at := Panicked SendOnClosedChannel\<rparr>]\<rparr>)"
  using assms by (simp add: step.simps client_at_update)

lemma step_Client_close_closed:
  assumes "j < length (clients s)" "todo (clients s ! j) = Shutdown # rest"
    "at (clients s ! j) = Entry" "is_closed (work (pool s))"
  shows "step T (Client j) s =
    Some (s\<lparr>clients := (clients s)[j := (clients s ! j)\<lparr>at := Panicked CloseOfClosedChannel\<rparr>]\<rparr>)"
  using assms by (simp add: step.simps close_chan_def client_at_update)

lemma step_Handoff_closed:
  assumes "is_closed (work (pool s))"
  shows "step T (Handoff j i) s = None"
proof (cases "step T (Handoff j i) s")
  case (Some s')
  then show ?thesis using assms by (cases rule: step_cases) auto
qed simp

lemma step_panicked_client:
  assumes "step T l s = Some s'" "j < length (clients s)" "at (clients s ! j) = Panicked x"
  shows "clients s' ! j = clients s ! j"
  using assms by (cases rule: step_cases) (auto simp: nth_list_update)

text \<open>
  C8. Once some \<^verbatim>\<open>Shutdown\<close> call is past \<^verbatim>\<open>close(p.work)\<close>, a client that starts
  \<^verbatim>\<open>Run\<close> is not blocked and does not return: its send panics (send on closed
  channel), and no worker can take the task. A client that starts a further
  \<^verbatim>\<open>Shutdown\<close> panics in \<^verbatim>\<open>close(p.work)\<close> (close of closed channel). A panicked
  call stays as it is under every later step, so it never returns a value.
\<close>

theorem misuse_after_Shutdown_panics:
  assumes "run T N progs ls = Some s" "j < length (clients s)"
  shows "(shutdown_called s \<and> at (clients s ! j) = Entry \<and> todo (clients s ! j) = Run w # rest \<longrightarrow>
            step T (Client j) s =
              Some (s\<lparr>clients := (clients s)[j := (clients s ! j)\<lparr>at := Panicked SendOnClosedChannel\<rparr>]\<rparr>) \<and>
            (\<forall>i. step T (Handoff j i) s = None)) \<and>
         (shutdown_called s \<and> at (clients s ! j) = Entry \<and> todo (clients s ! j) = Shutdown # rest \<longrightarrow>
            step T (Client j) s =
              Some (s\<lparr>clients := (clients s)[j := (clients s ! j)\<lparr>at := Panicked CloseOfClosedChannel\<rparr>]\<rparr>)) \<and>
         (\<forall>x l s'. at (clients s ! j) = Panicked x \<and> step T l s = Some s' \<longrightarrow>
            clients s' ! j = clients s ! j)"
  using assms run_shutdown_called[OF assms(1)]
  by (auto simp: step_Client_send_closed step_Client_close_closed step_Handoff_closed
           step_panicked_client)


lemma run_snocI:
  "run T N progs ls = Some s \<Longrightarrow> step T l s = Some s' \<Longrightarrow> run T N progs (ls @ [l]) = Some s'"
  by (simp add: run_snoc)

text \<open>
  \<^verbatim>\<open>Run\<close> after a returned \<^verbatim>\<open>Shutdown\<close> in one client, and a second \<^verbatim>\<open>Shutdown\<close> from
  another client, on a pool of one worker.
\<close>

theorem misuse_after_Shutdown_panics_witness:
  "\<exists>s s' t t' t''.
     run Task 1 [[Shutdown, Run (np ''steve'')]] [Client 0, Client 0, Worker 0, Client 0] = Some s \<and>
     shutdown_called s \<and> at (clients s ! 0) = Entry \<and> todo (clients s ! 0) = [Run (np ''steve'')] \<and>
     step Task (Client 0) s = Some s' \<and> at (clients s' ! 0) = Panicked SendOnClosedChannel \<and>
     step Task (Handoff 0 0) s = None \<and>
     run Task 1 [[Shutdown], [Shutdown]] [Client 0] = Some t \<and>
     shutdown_called t \<and> at (clients t ! 1) = Entry \<and> todo (clients t ! 1) = [Shutdown] \<and>
     step Task (Client 1) t = Some t' \<and> at (clients t' ! 1) = Panicked CloseOfClosedChannel \<and>
     step Task (Worker 0) t' = Some t'' \<and> clients t'' ! 1 = clients t' ! 1"
proof -
  let ?A = "[[Shutdown, Run (np ''steve'')]]" and ?B = "[[Shutdown], [Shutdown :: namePrinter call]]"
  have "map_option (\<lambda>s. (shutdown_called s, at (clients s ! 0), todo (clients s ! 0), length (clients s)))
          (run Task 1 ?A [Client 0, Client 0, Worker 0, Client 0])
        = Some (True, Entry, [Run (np ''steve'')], 1)"
    by code_simp
  then obtain s where s: "run Task 1 ?A [Client 0, Client 0, Worker 0, Client 0] = Some s"
    "shutdown_called s" "at (clients s ! 0) = Entry" "todo (clients s ! 0) = [Run (np ''steve'')]"
    "length (clients s) = 1"
    by auto
  define s' where "s' = s\<lparr>clients := (clients s)[0 := (clients s ! 0)\<lparr>at := Panicked SendOnClosedChannel\<rparr>]\<rparr>"
  from misuse_after_Shutdown_panics[OF s(1), of 0 "np ''steve''" "[]"] s
  have a: "step Task (Client 0) s = Some s'" "step Task (Handoff 0 0) s = None"
    by (auto simp: s'_def)
  from s(5) have a': "at (clients s' ! 0) = Panicked SendOnClosedChannel"
    by (simp add: s'_def)
  have "map_option (\<lambda>s. (shutdown_called s, at (clients s ! 1), todo (clients s ! 1), length (clients s)))
          (run Task 1 ?B [Client 0])
        = Some (True, Entry, [Shutdown], 2)"
    by code_simp
  then obtain t where t: "run Task 1 ?B [Client 0] = Some t"
    "shutdown_called t" "at (clients t ! 1) = Entry" "todo (clients t ! 1) = [Shutdown]"
    "length (clients t) = 2"
    by auto
  define t' where "t' = t\<lparr>clients := (clients t)[1 := (clients t ! 1)\<lparr>at := Panicked CloseOfClosedChannel\<rparr>]\<rparr>"
  from misuse_after_Shutdown_panics[OF t(1), of 1 _ "[]"] t
  have b: "step Task (Client 1) t = Some t'"
    by (auto simp: t'_def)
  from t(5) have b': "at (clients t' ! 1) = Panicked CloseOfClosedChannel" "1 < length (clients t')"
    by (simp_all add: t'_def)
  from t(1) b have rt': "run Task 1 ?B ([Client 0] @ [Client 1]) = Some t'"
    by (rule run_snocI)
  have "map_option (\<lambda>s. ()) (run Task 1 ?B (([Client 0] @ [Client 1]) @ [Worker 0])) = Some ()"
    by code_simp
  then obtain t'' where "run Task 1 ?B (([Client 0] @ [Client 1]) @ [Worker 0]) = Some t''"
    by blast
  from run_snoc_SomeD[OF this] rt' have c: "step Task (Worker 0) t' = Some t''"
    by auto
  from misuse_after_Shutdown_panics[OF rt' b'(2), of "np ''x''" "[]"] b'(1) c
  have c': "clients t'' ! 1 = clients t' ! 1"
    by blast
  from s a a' t b b' c c' show ?thesis by blast
qed

lemma run_unbuffered:
  assumes "run T N progs ls = Some s"
  shows "unbuffered (pool s)"
  using assms
proof (rule run_invariant)
  fix s0 :: "'a system" assume "start N progs = Inr s0"
  moreover from assms have "0 \<le> int32 N" by (simp add: run_Some_iff)
  ultimately show "unbuffered (pool s0)"
    by (auto simp: start_eq unbuffered_def make_chan_def)
qed (rule step_unbuffered)

lemma list_all_update:
  "list_all P xs \<Longrightarrow> P c \<Longrightarrow> list_all P (xs[j := c])"
  by (auto simp: list_all_iff dest!: set_update_subset_insert[THEN subsetD])

lemma list_all_nthD: "list_all P xs \<Longrightarrow> j < length xs \<Longrightarrow> P (xs ! j)"
  by (simp add: list_all_length)

section \<open>A pool without workers\<close>

lemma step_no_workers:
  assumes "step T l s = Some s'" "workers s = []" "unbuffered (pool s)"
    "list_all unmatched (clients s)"
  shows "list_all unmatched (clients s')"
  using assms
proof (cases rule: step_cases)
  case (send_closed j w rest)
  with assms list_all_nthD[OF assms(4), of j] show ?thesis
    by (auto simp: unmatched_def intro!: list_all_update)
next
  case (close_work j rest)
  with assms list_all_nthD[OF assms(4), of j] show ?thesis
    by (auto simp: unmatched_def intro!: list_all_update)
next
  case (close_work_panic j rest)
  with assms list_all_nthD[OF assms(4), of j] show ?thesis
    by (auto simp: unmatched_def intro!: list_all_update)
next
  case (close_err j rest)
  with assms list_all_nthD[OF assms(4), of j] show ?thesis
    by (auto simp: unmatched_def intro!: list_all_update)
next
  case (close_err_panic j rest)
  with assms list_all_nthD[OF assms(4), of j] show ?thesis
    by (auto simp: unmatched_def intro!: list_all_update)
next
  case (wait j rest)
  with assms list_all_nthD[OF assms(4), of j] show ?thesis
    by (auto simp: unmatched_def intro!: list_all_update)
next
  case (recv_buf j w rest e es)
  with assms list_all_nthD[OF assms(4), of j] show ?thesis
    by (auto simp: unmatched_def)
next
  case (recv_closed j w rest)
  with assms list_all_nthD[OF assms(4), of j] show ?thesis
    by (auto simp: unmatched_def)
qed (use assms in \<open>auto simp: unbuffered_def\<close>)

lemma step_Handoff_no_worker:
  assumes "length (workers s) \<le> i"
  shows "step T (Handoff j i) s = None"
  using assms by (simp add: step.simps)

lemma step_Client_wait:
  assumes "j < length (clients s)" "todo (clients s ! j) = Shutdown # rest"
    "at (clients s ! j) = Wait" "wg (pool s) = 0"
  shows "step T (Client j) s =
    Some (s\<lparr>clients := (clients s)[j := \<lparr>todo = rest, at = Entry,
                                           log = log (clients s ! j) @ [ShutdownRet]\<rparr>]\<rparr>)"
  using assms by (simp add: step.simps)

lemma New_eq: "0 \<le> int32 n \<Longrightarrow> (New n :: panic + 'w system) =
   Inr \<lparr>pool = \<lparr>work = make_chan 0, wg = int32 n, errChan = make_chan 0\<rparr>,
        workers = replicate (nat n) Receiving, clients = []\<rparr>"
  by (simp add: New_def wg_Add_def New_loop_eq)

lemma run_zero:
  assumes "run T 0 progs ls = Some s"
  shows "unbuffered (pool s) \<and> workers s = [] \<and> list_all unmatched (clients s)"
  using assms
proof (rule run_invariant)
  fix s0 :: "'a system" assume "start 0 progs = Inr s0"
  then show "unbuffered (pool s0) \<and> workers s0 = [] \<and> list_all unmatched (clients s0)"
    by (auto simp: start_eq unmatched_def list_all_iff unbuffered_def make_chan_def)
next
  fix l and s s' :: "'a system"
  assume a: "unbuffered (pool s) \<and> workers s = [] \<and> list_all unmatched (clients s)"
    and st: "step T l s = Some s'"
  from step_length_workers[OF st] a have "workers s' = []" by simp
  with step_unbuffered[OF st] step_no_workers[OF st] a
  show "unbuffered (pool s') \<and> workers s' = [] \<and> list_all unmatched (clients s')"
    by simp
qed

text \<open>
  C10. \<^verbatim>\<open>New\<close> does not check its argument: \<^verbatim>\<open>New(0)\<close> succeeds and starts no worker, and
  the counter of the barrier is zero. On such a pool, in every state reached, no
  handoff is ever enabled, no client is past the send of a \<^verbatim>\<open>Run\<close> and no \<^verbatim>\<open>Run\<close> has
  returned, while \<^verbatim>\<open>Wait\<close> lets \<^verbatim>\<open>Shutdown\<close> pass at once; a \<^verbatim>\<open>Shutdown\<close> on the fresh
  pool returns after its own three steps.
\<close>

theorem New_zero_pool:
  "(\<exists>s0. (New 0 :: panic + 'w system) = Inr s0 \<and> workers s0 = [] \<and> wg (pool s0) = 0) \<and>
   (\<forall>ls s. run T 0 progs ls = Some s \<longrightarrow>
      workers s = [] \<and> wg (pool s) = 0 \<and>
      (\<forall>j i. step T (Handoff j i) s = None) \<and>
      list_all unmatched (clients s) \<and>
      (\<forall>j rest. j < length (clients s) \<and> todo (clients s ! j) = Shutdown # rest \<and>
                 at (clients s ! j) = Wait \<longrightarrow>
         step T (Client j) s =
           Some (s\<lparr>clients := (clients s)[j := \<lparr>todo = rest, at = Entry,
                                                  log = log (clients s ! j) @ [ShutdownRet]\<rparr>]\<rparr>))) \<and>
   map_option (\<lambda>s. map log (clients s)) (run T 0 [[Shutdown]] [Client 0, Client 0, Client 0])
     = Some [[ShutdownRet]]"
proof (intro conjI allI impI)
  show "\<exists>s0. (New 0 :: panic + 'w system) = Inr s0 \<and> workers s0 = [] \<and> wg (pool s0) = 0"
    by (simp add: New_eq)
next
  show "map_option (\<lambda>s. map log (clients s)) (run T 0 [[Shutdown]] [Client 0, Client 0, Client 0])
     = Some [[ShutdownRet]]"
    by (simp add: run_Some_iff step.simps make_chan_def close_chan_def)
next
  fix ls s assume r: "run T 0 progs ls = Some s"
  from run_zero[OF r] show w: "workers s = []" "list_all unmatched (clients s)"
    by simp_all
  from run_wg[OF r] w show z: "wg (pool s) = 0"
    by (simp add: exited_def)
  {
    fix j i
    from w show "step T (Handoff j i) s = None"
      by (simp add: step_Handoff_no_worker)
  }
  {
    fix j rest
    assume "j < length (clients s) \<and> todo (clients s ! j) = Shutdown # rest \<and>
                 at (clients s ! j) = Wait"
    with z show "step T (Client j) s =
           Some (s\<lparr>clients := (clients s)[j := \<lparr>todo = rest, at = Entry,
                                                  log = log (clients s ! j) @ [ShutdownRet]\<rparr>]\<rparr>)"
      by (simp add: step_Client_wait)
  }
qed

text \<open>A pool of size zero with one \<^verbatim>\<open>Run\<close> and one \<^verbatim>\<open>Shutdown\<close>.\<close>

theorem New_zero_pool_witness:
  "\<exists>s s'.
     run Task 0 [[Run (np ''steve'')], [Shutdown]] [Client 1, Client 1] = Some s \<and>
     workers s = [] \<and> wg (pool s) = 0 \<and> step Task (Handoff 0 0) s = None \<and>
     list_all unmatched (clients s) \<and>
     todo (clients s ! 1) = [Shutdown] \<and> at (clients s ! 1) = Wait \<and>
     step Task (Client 1) s = Some s' \<and> log (clients s' ! 1) = [ShutdownRet]"
proof -
  let ?P = "[[Run (np ''steve'')], [Shutdown]]"
  have "map_option (\<lambda>s. (todo (clients s ! 1), at (clients s ! 1), log (clients s ! 1), length (clients s)))
          (run Task 0 ?P [Client 1, Client 1]) = Some ([Shutdown], Wait, [], 2)"
    by code_simp
  then obtain s where s: "run Task 0 ?P [Client 1, Client 1] = Some s"
    "todo (clients s ! 1) = [Shutdown]" "at (clients s ! 1) = Wait" "log (clients s ! 1) = []"
    "length (clients s) = 2"
    by auto
  define s' where "s' = s\<lparr>clients := (clients s)[1 := \<lparr>todo = [], at = Entry,
                                                  log = log (clients s ! 1) @ [ShutdownRet]\<rparr>]\<rparr>"
  from New_zero_pool[of Task ?P] s(1)
  have a: "workers s = []" "wg (pool s) = 0" "step Task (Handoff 0 0) s = None"
    "list_all unmatched (clients s)"
    and b: "\<forall>j rest. j < length (clients s) \<and> todo (clients s ! j) = Shutdown # rest \<and>
                 at (clients s ! j) = Wait \<longrightarrow>
         step Task (Client j) s =
           Some (s\<lparr>clients := (clients s)[j := \<lparr>todo = rest, at = Entry,
                                                  log = log (clients s ! j) @ [ShutdownRet]\<rparr>]\<rparr>)"
    by blast+
  from b s have c: "step Task (Client 1) s = Some s'"
    by (simp add: s'_def)
  from s have d: "log (clients s' ! 1) = [ShutdownRet]"
    by (simp add: s'_def)
  from s a c d show ?thesis by blast
qed

section \<open>The handoff channel\<close>

lemma run_step_client_unchanged:
  assumes "step T l s = Some s'" "unbuffered (pool s)" "j < length (clients s)"
    "todo (clients s ! j) = Run w # rest" "at (clients s ! j) = Entry"
    "\<not> is_closed (work (pool s))" "list_all (\<lambda>g. g \<noteq> Receiving) (workers s)"
  shows "clients s' ! j = clients s ! j"
  using assms
  by (cases rule: step_cases)
     (auto simp: nth_list_update unbuffered_def list_all_length)

lemma step_send_completes:
  assumes "step T l s = Some s'" "unbuffered (pool s)" "j < length (clients s)"
    "todo (clients s ! j) = Run w # rest" "at (clients s ! j) = Entry"
    "at (clients s' ! j) = AwaitErr"
  shows "\<exists>i. l = Handoff j i \<and> i < length (workers s) \<and> workers s ! i = Receiving \<and>
             workers s' ! i = InTask w"
  using assms
  by (cases rule: step_cases)
     (auto simp: nth_list_update unbuffered_def split: if_splits)

lemma step_Client_blocked:
  assumes "unbuffered (pool s)" "j < length (clients s)"
    "todo (clients s ! j) = Run w # rest" "at (clients s ! j) = Entry"
    "\<not> is_closed (work (pool s))"
  shows "step T (Client j) s = None"
  using assms by (simp add: step.simps unbuffered_def)

lemma step_Handoff_busy:
  assumes "list_all (\<lambda>g. g \<noteq> Receiving) (workers s)"
  shows "step T (Handoff j i) s = None"
proof (cases "step T (Handoff j i) s")
  case (Some s')
  then show ?thesis using assms by (cases rule: step_cases) (auto simp: list_all_length)
qed simp

text \<open>
  C6. The handoff channel never buffers: in every state reached its capacity is 0 and it
  holds no task. The send of a \<^verbatim>\<open>Run\<close> call completes only in a step in which a worker
  that was waiting in its receive takes that very task. While the channel is open and no
  worker is waiting to receive, the caller is blocked in the send: neither its own step
  nor a handoff is enabled, and every step of the rest of the system leaves it where it
  is and the channel empty.
\<close>

theorem handoff_is_rendezvous:
  assumes "run T N progs ls = Some s"
  shows "cap (work (pool s)) = 0 \<and> buf (work (pool s)) = [] \<and>
     (\<forall>j w rest. j < length (clients s) \<and> todo (clients s ! j) = Run w # rest \<and>
                 at (clients s ! j) = Entry \<longrightarrow>
        (\<forall>l s'. step T l s = Some s' \<and> at (clients s' ! j) = AwaitErr \<longrightarrow>
           (\<exists>i. l = Handoff j i \<and> i < length (workers s) \<and> workers s ! i = Receiving \<and>
                workers s' ! i = InTask w)) \<and>
        (\<not> is_closed (work (pool s)) \<and> list_all (\<lambda>g. g \<noteq> Receiving) (workers s) \<longrightarrow>
           step T (Client j) s = None \<and> (\<forall>i. step T (Handoff j i) s = None) \<and>
           (\<forall>l s'. step T l s = Some s' \<longrightarrow>
              clients s' ! j = clients s ! j \<and> buf (work (pool s')) = [])))"
proof -
  note u = run_unbuffered[OF assms]
  have "\<And>l s'. step T l s = Some s' \<Longrightarrow> buf (work (pool s')) = []"
    using step_unbuffered[OF _ u] by (simp add: unbuffered_def)
  with u show ?thesis
    by (auto simp: unbuffered_def[of "pool s"]
             intro: step_send_completes step_Client_blocked step_Handoff_busy
                    run_step_client_unchanged)
qed

text \<open>Two callers on a pool of one worker: the first is taken, the second blocks.\<close>

theorem handoff_is_rendezvous_witness:
  "\<exists>s0 s s'.
     run Task 1 [[Run (np ''steve'')], [Run (np ''bob'')]] [] = Some s0 \<and>
     cap (work (pool s0)) = 0 \<and> buf (work (pool s0)) = [] \<and>
     todo (clients s0 ! 0) = [Run (np ''steve'')] \<and> at (clients s0 ! 0) = Entry \<and>
     step Task (Handoff 0 0) s0 = Some s \<and> at (clients s ! 0) = AwaitErr \<and>
     workers s0 ! 0 = Receiving \<and> workers s ! 0 = InTask (np ''steve'') \<and>
     todo (clients s ! 1) = [Run (np ''bob'')] \<and> at (clients s ! 1) = Entry \<and>
     \<not> is_closed (work (pool s)) \<and> list_all (\<lambda>g. g \<noteq> Receiving) (workers s) \<and>
     step Task (Client 1) s = None \<and> step Task (Handoff 1 0) s = None \<and>
     step Task (Worker 0) s = Some s' \<and> clients s' ! 1 = clients s ! 1 \<and>
     buf (work (pool s')) = []"
proof -
  let ?P = "[[Run (np ''steve'')], [Run (np ''bob'')]]"
  have "map_option (\<lambda>s. (todo (clients s ! 0), at (clients s ! 0), length (clients s)))
          (run Task 1 ?P []) = Some ([Run (np ''steve'')], Entry, 2)"
    by code_simp
  then obtain s0 where s0: "run Task 1 ?P [] = Some s0"
    "todo (clients s0 ! 0) = [Run (np ''steve'')]" "at (clients s0 ! 0) = Entry"
    "length (clients s0) = 2"
    by auto
  have "map_option (\<lambda>s. (at (clients s ! 0), todo (clients s ! 1), at (clients s ! 1),
                          is_closed (work (pool s)), list_all (\<lambda>g. g \<noteq> Receiving) (workers s),
                          length (clients s)))
          (run Task 1 ?P ([] @ [Handoff 0 0]))
        = Some (AwaitErr, [Run (np ''bob'')], Entry, False, True, 2)"
    by code_simp
  then obtain s where s: "run Task 1 ?P ([] @ [Handoff 0 0]) = Some s"
    "at (clients s ! 0) = AwaitErr" "todo (clients s ! 1) = [Run (np ''bob'')]"
    "at (clients s ! 1) = Entry" "\<not> is_closed (work (pool s))"
    "list_all (\<lambda>g. g \<noteq> Receiving) (workers s)" "length (clients s) = 2"
    by auto
  from run_snoc_SomeD[OF s(1)] s0(1) have st: "step Task (Handoff 0 0) s0 = Some s"
    by auto
  have "map_option (\<lambda>s. ()) (run Task 1 ?P (([] @ [Handoff 0 0]) @ [Worker 0])) = Some ()"
    by code_simp
  then obtain s' where "run Task 1 ?P (([] @ [Handoff 0 0]) @ [Worker 0]) = Some s'"
    by blast
  from run_snoc_SomeD[OF this] s(1) have st': "step Task (Worker 0) s = Some s'"
    by auto
  note h0 = handoff_is_rendezvous[OF s0(1)]
  from h0 have a: "cap (work (pool s0)) = 0" "buf (work (pool s0)) = []"
    by (rule conjunct1, rule conjunct2[THEN conjunct1])
  have pre0: "0 < length (clients s0) \<and> todo (clients s0 ! 0) = Run (np ''steve'') # [] \<and>
              at (clients s0 ! 0) = Entry"
    using s0 by simp
  note h1 = h0[THEN conjunct2, THEN conjunct2, rule_format, OF pre0, THEN conjunct1,
               rule_format, OF conjI[OF st s(2)]]
  then obtain i where "Handoff 0 0 = Handoff 0 i" "workers s0 ! i = Receiving"
    "workers s ! i = InTask (np ''steve'')"
    by blast
  then have a': "workers s0 ! 0 = Receiving" "workers s ! 0 = InTask (np ''steve'')"
    by simp_all
  have pre1: "1 < length (clients s) \<and> todo (clients s ! 1) = Run (np ''bob'') # [] \<and>
              at (clients s ! 1) = Entry"
    using s by simp
  note h2 = handoff_is_rendezvous[OF s(1), THEN conjunct2, THEN conjunct2, rule_format,
               OF pre1, THEN conjunct2, rule_format, OF conjI[OF s(5) s(6)]]
  from h2 have b: "step Task (Client 1) s = None" "step Task (Handoff 1 0) s = None"
    by blast+
  from h2[THEN conjunct2, THEN conjunct2, rule_format, OF st']
  have b': "clients s' ! 1 = clients s ! 1" "buf (work (pool s')) = []"
    by blast+
  from s0 s st st' a a' b b' show ?thesis by blast
qed

section \<open>The worker loop\<close>

lemma run_err_closed:
  assumes "run T N progs ls = Some s"
  shows "(is_closed (errChan (pool s)) \<longrightarrow> is_closed (work (pool s))) \<and>
         (\<forall>c \<in> set (clients s). at c = CloseErr \<longrightarrow> is_closed (work (pool s)))"
  using assms
proof (rule run_invariant)
  fix s0 :: "'a system" assume "start N progs = Inr s0"
  moreover from assms have "0 \<le> int32 N" by (simp add: run_Some_iff)
  ultimately show "(is_closed (errChan (pool s0)) \<longrightarrow> is_closed (work (pool s0))) \<and>
         (\<forall>c \<in> set (clients s0). at c = CloseErr \<longrightarrow> is_closed (work (pool s0)))"
    by (auto simp: start_eq make_chan_def)
next
  fix l and s s' :: "'a system"
  assume "(is_closed (errChan (pool s)) \<longrightarrow> is_closed (work (pool s))) \<and>
         (\<forall>c \<in> set (clients s). at c = CloseErr \<longrightarrow> is_closed (work (pool s)))"
    "step T l s = Some s'"
  then show "(is_closed (errChan (pool s')) \<longrightarrow> is_closed (work (pool s'))) \<and>
         (\<forall>c \<in> set (clients s'). at c = CloseErr \<longrightarrow> is_closed (work (pool s')))"
    using step_err_closed_work_closed[of T l s s'] by blast
qed



lemma exited_less:
  assumes "i < length (workers s)" "workers s ! i \<noteq> Exited"
  shows "exited s < length (workers s)"
  unfolding exited_def using assms by (intro length_filter_less[of "workers s ! i"]) auto






section \<open>A single sequential client\<close>

lemma length_filter_update_lose:
  "i < length xs \<Longrightarrow> P (xs ! i) \<Longrightarrow> \<not> P y \<Longrightarrow>
     Suc (length (filter P (xs[i := y]))) = length (filter P xs)"
  using length_filter_update[of i xs P y] by simp

lemma length_filter_pos:
  "i < length xs \<Longrightarrow> P (xs ! i) \<Longrightarrow> 0 < length (filter P xs)"
  by (metis filter_empty_conv length_greater_0_conv nth_mem)

lemma none_busy_holds_only:
  "length (filter busy gs) = 0 \<Longrightarrow> list_all (holds_only T w) gs"
proof -
  assume "length (filter busy gs) = 0"
  then have "\<forall>g \<in> set gs. \<not> busy g" by (simp add: filter_empty_conv)
  then show ?thesis
    unfolding list_all_iff
  proof (intro ballI)
    fix g assume "\<forall>g \<in> set gs. \<not> busy g" "g \<in> set gs"
    then have "\<not> busy g" by blast
    then show "holds_only T w g" by (cases g) auto
  qed
qed

lemma busy_at_AwaitErr:
  assumes "seq_inv T s" "i < length (workers s)" "busy (workers s ! i)"
  shows "at (clients s ! 0) = AwaitErr"
  using assms length_filter_pos[of i "workers s" busy]
  by (auto simp: seq_inv_def split: if_splits)

lemma in_flight_elim:
  assumes "in_flight T td gs"
  obtains w rest where "td = Run w # rest" "list_all (holds_only T w) gs"
  using assms by (cases "(T, td, gs)" rule: in_flight.cases) auto

lemma step_seq_inv:
  assumes st: "step T l s = Some s'" and inv: "seq_inv T s"
    and one: "length (clients s) = 1" and u: "unbuffered (pool s)"
    and ec: "is_closed (errChan (pool s)) \<longrightarrow> is_closed (work (pool s))"
  shows "seq_inv T s'"
  using st
proof (cases rule: step_cases)
  case (handoff j i w rest)
  with one have j: "j = 0" by simp
  from handoff j inv have nb: "length (filter busy (workers s)) = 0"
    by (simp add: seq_inv_def)
  have "list_all (holds_only T w) ((workers s)[i := InTask w])"
    by (intro list_all_update none_busy_holds_only[OF nb]) simp
  moreover have "length (filter busy ((workers s)[i := InTask w])) = 1"
    using handoff nb by (simp add: length_filter_update_gain)
  ultimately show ?thesis
    using handoff j inv one ec by (simp add: seq_inv_def)
next
  case (reply i j w rest e)
  with one have j: "j = 0" by simp
  from reply j inv have fl: "list_all (holds_only T w) (workers s)"
    and cnt: "length (filter busy (workers s)) = 1"
    by (auto simp: seq_inv_def)
  from list_all_nthD[OF fl reply(3)] reply have e: "e = T w" by simp
  have "length (filter busy ((workers s)[i := Receiving])) = 0"
    using length_filter_update_lose[of i "workers s" busy Receiving] reply cnt by simp
  with reply j inv one e show ?thesis by (simp add: seq_inv_def)
next
  case (task i w)
  with busy_at_AwaitErr[OF inv, of i] have aw: "at (clients s ! 0) = AwaitErr" by simp
  with inv obtain w0 rest where td: "todo (clients s ! 0) = Run w0 # rest"
    and fl: "list_all (holds_only T w0) (workers s)"
    by (auto simp: seq_inv_def elim: in_flight_elim)
  from list_all_nthD[OF fl task(2)] task have "w = w0" by simp
  with fl have "list_all (holds_only T w0) ((workers s)[i := Sending (T w)])"
    by (intro list_all_update) simp_all
  moreover have "length (filter busy ((workers s)[i := Sending (T w)])) = length (filter busy (workers s))"
    using task by (simp add: length_filter_update_same)
  ultimately show ?thesis
    using task inv aw td by (simp add: seq_inv_def)
next
  case (send_err_closed i e)
  with busy_at_AwaitErr[OF inv, of i] have "at (clients s ! 0) = AwaitErr" by simp
  with inv send_err_closed show ?thesis by (simp add: seq_inv_def)
next
  case (exit i)
  then have "length (filter busy ((workers s)[i := Exited])) = length (filter busy (workers s))"
    by (simp add: length_filter_update_same)
  moreover have "\<And>w. list_all (holds_only T w) (workers s) \<Longrightarrow>
      list_all (holds_only T w) ((workers s)[i := Exited])"
    by (intro list_all_update) simp_all
  ultimately show ?thesis
    using exit inv by (auto simp: seq_inv_def elim!: in_flight_elim)
next
  case (exit_panic i)
  then have "length (filter busy ((workers s)[i := Crashed NegativeWaitGroupCounter])) =
      length (filter busy (workers s))"
    by (simp add: length_filter_update_same)
  moreover have "\<And>w. list_all (holds_only T w) (workers s) \<Longrightarrow>
      list_all (holds_only T w) ((workers s)[i := Crashed NegativeWaitGroupCounter])"
    by (intro list_all_update) simp_all
  ultimately show ?thesis
    using exit_panic inv by (auto simp: seq_inv_def elim!: in_flight_elim)
qed (use inv one u in \<open>auto simp: seq_inv_def unbuffered_def\<close>)

lemma run_seq_inv:
  assumes "run T N [prog] ls = Some s"
  shows "seq_inv T s \<and> length (clients s) = 1 \<and> unbuffered (pool s) \<and>
         (is_closed (errChan (pool s)) \<longrightarrow> is_closed (work (pool s)))"
proof -
  let ?I = "\<lambda>s. (seq_inv T s \<and> length (clients s) = 1) \<and> unbuffered (pool s) \<and>
      ((is_closed (errChan (pool s)) \<longrightarrow> is_closed (work (pool s))) \<and>
       (\<forall>c \<in> set (clients s). at c = CloseErr \<longrightarrow> is_closed (work (pool s))))"
  have "?I s"
    using assms
  proof (rule run_invariant)
    fix s0 :: "'a system" assume "start N [prog] = Inr s0"
    moreover from assms have "0 \<le> int32 N" by (simp add: run_Some_iff)
    ultimately show "?I s0"
      by (auto simp: start_eq seq_inv_def unbuffered_def make_chan_def)
  next
    fix l and s s' :: "'a system"
    assume a: "?I s" and st: "step T l s = Some s'"
    from a st have "seq_inv T s'" by (intro step_seq_inv[OF st]) auto
    moreover from a step_length_clients[OF st] have "length (clients s') = 1" by simp
    moreover from a step_unbuffered[OF st] have "unbuffered (pool s')" by simp
    moreover from a step_err_closed_work_closed[OF st]
    have "(is_closed (errChan (pool s')) \<longrightarrow> is_closed (work (pool s'))) \<and>
       (\<forall>c \<in> set (clients s'). at c = CloseErr \<longrightarrow> is_closed (work (pool s')))"
      by blast
    ultimately show "?I s'" by blast
  qed
  then show ?thesis by blast
qed

lemma outcome_of_RunRet: "outcome_of T c = RunRet w e \<Longrightarrow> c = Run w"
  by (cases c) auto

lemma run_only_todo:
  assumes "run_only_inv T ws s" "todo (clients s ! 0) = c # rest"
  obtains w where "c = Run w"
proof -
  from assms have "outcome_of T c \<in> set (map (\<lambda>w. RunRet w (T w)) ws)"
    unfolding run_only_inv_def by (metis in_set_conv_decomp list.simps(9) map_append)
  then obtain w where "outcome_of T c = RunRet w (T w)" by auto
  from outcome_of_RunRet[OF this] that show ?thesis by blast
qed

lemma step_run_only:
  assumes st: "step T l s = Some s'" and inv: "seq_inv T s" and r: "run_only_inv T ws s"
    and one: "length (clients s) = 1" and u: "unbuffered (pool s)"
  shows "run_only_inv T ws s' \<and> remaining s' = remaining s - 1"
  using st
proof (cases rule: step_cases)
  case (handoff j i w rest)
  with one have j: "j = 0" by simp
  have "length (filter is_Sending ((workers s)[i := InTask w])) = length (filter is_Sending (workers s))"
    using handoff by (simp add: length_filter_update_same)
  moreover have "list_all (\<lambda>g. \<not> stopped g) ((workers s)[i := InTask w])"
    using r by (intro list_all_update) (simp_all add: run_only_inv_def)
  ultimately show ?thesis
    using handoff j r one by (simp add: run_only_inv_def remaining_def)
next
  case (reply i j w rest e)
  with one have j: "j = 0" by simp
  from reply j inv have fl: "list_all (holds_only T w) (workers s)"
    by (auto simp: seq_inv_def)
  from list_all_nthD[OF fl reply(3)] reply have e: "e = T w" by simp
  have "Suc (length (filter is_Sending ((workers s)[i := Receiving]))) = length (filter is_Sending (workers s))"
    using reply by (intro length_filter_update_lose) simp_all
  moreover have "list_all (\<lambda>g. \<not> stopped g) ((workers s)[i := Receiving])"
    using r by (intro list_all_update) (simp_all add: run_only_inv_def)
  ultimately show ?thesis
    using reply j r one e by (simp add: run_only_inv_def remaining_def)
next
  case (task i w)
  have "length (filter is_Sending ((workers s)[i := Sending (T w)])) = Suc (length (filter is_Sending (workers s)))"
    using task by (intro length_filter_update_gain) simp_all
  moreover have "list_all (\<lambda>g. \<not> stopped g) ((workers s)[i := Sending (T w)])"
    using r by (intro list_all_update) (simp_all add: run_only_inv_def)
  ultimately show ?thesis
    using task r by (simp add: run_only_inv_def remaining_def)
next
  case (close_work j rest)
  with one have "todo (clients s ! 0) = Shutdown # rest" by simp
  from run_only_todo[OF r this] show ?thesis by auto
next
  case (close_err j rest)
  with one have "todo (clients s ! 0) = Shutdown # rest" by simp
  from run_only_todo[OF r this] show ?thesis by auto
next
  case (wait j rest)
  with one have "todo (clients s ! 0) = Shutdown # rest" by simp
  from run_only_todo[OF r this] show ?thesis by auto
qed (use r u in \<open>auto simp: run_only_inv_def unbuffered_def\<close>)

lemma ex_nth_filter_pos:
  "0 < length (filter P xs) \<Longrightarrow> \<exists>i < length xs. P (xs ! i)"
  by (metis filter_empty_conv in_set_conv_nth length_greater_0_conv)

lemma filter_Sending_le_busy:
  "length (filter is_Sending gs) \<le> length (filter busy gs)"
proof (induction gs)
  case Nil
  then show ?case by simp
next
  case (Cons g gs)
  then show ?case by (cases g) auto
qed

lemma remaining_nonneg:
  assumes "seq_inv T s"
  shows "0 \<le> remaining s \<and> (remaining s = 0 \<longrightarrow> todo (clients s ! 0) = [])"
proof (cases "at (clients s ! 0) = AwaitErr")
  case True
  with assms have "length (filter busy (workers s)) = 1" "todo (clients s ! 0) \<noteq> []"
    by (auto simp: seq_inv_def elim: in_flight_elim)
  with filter_Sending_le_busy[of "workers s"] True
  have "length (filter is_Sending (workers s)) \<le> 1" "1 \<le> length (todo (clients s ! 0))"
    by (simp_all add: Suc_le_eq)
  with True show ?thesis by (simp add: remaining_def)
next
  case False
  with assms have "length (filter busy (workers s)) = 0"
    by (simp add: seq_inv_def)
  with filter_Sending_le_busy[of "workers s"]
  have "length (filter is_Sending (workers s)) = 0" by simp
  with False show ?thesis by (simp add: remaining_def)
qed

lemma run_only_progress:
  assumes inv: "seq_inv T s" and r: "run_only_inv T ws s"
    and one: "length (clients s) = 1" and u: "unbuffered (pool s)"
    and w0: "0 < length (workers s)" and td: "todo (clients s ! 0) \<noteq> []"
  shows "\<exists>l s'. step T l s = Some s'"
proof -
  from td obtain c rest where cr: "todo (clients s ! 0) = c # rest" by (cases "todo (clients s ! 0)") auto
  from run_only_todo[OF r cr] obtain w where c: "c = Run w" .
  from r have opn: "\<not> is_closed (work (pool s))" "\<not> is_closed (errChan (pool s))"
    and ns: "list_all (\<lambda>g. \<not> stopped g) (workers s)"
    by (simp_all add: run_only_inv_def)
  from r have "at (clients s ! 0) = Entry \<or> at (clients s ! 0) = AwaitErr"
    by (simp add: run_only_inv_def)
  then show ?thesis
  proof
    assume e: "at (clients s ! 0) = Entry"
    with inv have "length (filter busy (workers s)) = 0" by (simp add: seq_inv_def)
    with w0 have "\<not> busy (workers s ! 0)" by (simp add: filter_empty_conv)
    moreover from list_all_nthD[OF ns w0] have "\<not> stopped (workers s ! 0)" .
    ultimately have "workers s ! 0 = Receiving" by (cases "workers s ! 0") auto
    with e cr c opn u one w0 have "step T (Handoff 0 0) s \<noteq> None"
      by (simp add: step.simps unbuffered_def)
    then show ?thesis by blast
  next
    assume a: "at (clients s ! 0) = AwaitErr"
    with inv have "0 < length (filter busy (workers s))" by (simp add: seq_inv_def)
    from ex_nth_filter_pos[OF this] obtain i where i: "i < length (workers s)" "busy (workers s ! i)"
      by blast
    show ?thesis
    proof (cases "workers s ! i")
      case (InTask w')
      with i have "step T (Worker i) s \<noteq> None" by (simp add: step.simps)
      then show ?thesis by blast
    next
      case (Sending e)
      with i a cr c opn u one have "step T (Reply i 0) s \<noteq> None"
        by (simp add: step.simps unbuffered_def)
      then show ?thesis by blast
    qed (use i in auto)
  qed
qed

lemma exec_run_only:
  assumes "exec T ls s0 = Some s"
    "seq_inv T s0 \<and> run_only_inv T ws s0 \<and> length (clients s0) = 1 \<and> unbuffered (pool s0)"
  shows "(seq_inv T s \<and> run_only_inv T ws s \<and> length (clients s) = 1 \<and> unbuffered (pool s)) \<and>
         remaining s = remaining s0 - int (length ls)"
  using assms
proof (induction ls arbitrary: s0)
  case Nil
  then show ?case by simp
next
  case (Cons l ls)
  from Cons.prems(1) obtain s1 where st: "step T l s0 = Some s1" and ex: "exec T ls s1 = Some s"
    by (auto split: option.splits)
  from Cons.prems(2) have ec: "is_closed (errChan (pool s0)) \<longrightarrow> is_closed (work (pool s0))"
    by (simp add: run_only_inv_def)
  from Cons.prems(2) st ec have "seq_inv T s1" by (intro step_seq_inv[OF st]) auto
  moreover from Cons.prems(2) st have ro: "run_only_inv T ws s1 \<and> remaining s1 = remaining s0 - 1"
    by (intro step_run_only[OF st]) auto
  moreover from Cons.prems(2) step_length_clients[OF st] have "length (clients s1) = 1" by simp
  moreover from Cons.prems(2) step_unbuffered[OF st] have "unbuffered (pool s1)" by simp
  ultimately have J1: "seq_inv T s1 \<and> run_only_inv T ws s1 \<and> length (clients s1) = 1 \<and> unbuffered (pool s1)"
    by simp
  from Cons.IH[OF ex J1] ro show ?case by simp
qed

lemma run_run_only:
  assumes "run T N [map Run ws] ls = Some s"
  shows "(seq_inv T s \<and> run_only_inv T ws s \<and> length (clients s) = 1 \<and> unbuffered (pool s)) \<and>
         remaining s = 3 * int (length ws) - int (length ls)"
proof -
  let ?s0 = "\<lparr>pool = \<lparr>work = make_chan 0, wg = int32 N, errChan = make_chan 0\<rparr>,
                workers = replicate (nat N) Receiving,
                clients = map (\<lambda>cs. \<lparr>todo = cs, at = Entry, log = []\<rparr>) [map Run ws]\<rparr>"
  from assms have ex: "exec T ls ?s0 = Some s" by (simp add: run_Some_iff)
  have "seq_inv T ?s0 \<and> run_only_inv T ws ?s0 \<and> length (clients ?s0) = 1 \<and> unbuffered (pool ?s0)"
    by (simp add: seq_inv_def run_only_inv_def unbuffered_def make_chan_def list_all_iff comp_def)
  from exec_run_only[OF ex this] show ?thesis by (simp add: remaining_def)
qed

lemma run_only_completes:
  assumes "run T N [map Run ws] ls = Some s" "1 \<le> N" "nat (remaining s) = k"
  shows "\<exists>ls' s'. run T N [map Run ws] (ls @ ls') = Some s' \<and> todo (clients s' ! 0) = []"
  using assms
proof (induction k arbitrary: ls s)
  case 0
  from run_run_only[OF 0(1)] have "seq_inv T s" by simp
  from remaining_nonneg[OF this] 0(3) have "todo (clients s ! 0) = []" by simp
  with 0(1) show ?case by (intro exI[of _ "[]"] exI[of _ s]) simp
next
  case (Suc k)
  note J = run_run_only[OF Suc(2)]
  from Suc(4) have "todo (clients s ! 0) \<noteq> []" by (auto simp: remaining_def)
  moreover from run_length_workers[OF Suc(2)] Suc(3) have "0 < length (workers s)" by simp
  ultimately obtain l s1 where st: "step T l s = Some s1"
    using run_only_progress[of T s ws] J by blast
  from run_snocI[OF Suc(2) st] have r1: "run T N [map Run ws] (ls @ [l]) = Some s1" .
  from J step_run_only[OF st, of ws] have "remaining s1 = remaining s - 1" by simp
  with Suc(4) have "nat (remaining s1) = k" by simp
  from Suc.IH[OF r1 Suc(3) this] obtain ls' s' where
    "run T N [map Run ws] ((ls @ [l]) @ ls') = Some s'" "todo (clients s' ! 0) = []"
    by blast
  then show ?case by (intro exI[of _ "l # ls'"] exI[of _ s']) simp
qed

text \<open>
  The single client is needed for what follows. When a second goroutine calls
  \<^verbatim>\<open>Shutdown\<close> while \<^verbatim>\<open>Run(jason)\<close> is in flight, the caller receives \<^verbatim>\<open>nil\<close> from the
  closed result channel, although the task returns \<^verbatim>\<open>Invalid name\<close>.
\<close>

lemma Run_beside_Shutdown_returns_nil:
  "map_option (\<lambda>s. (log (clients s ! 0), Task (np ''jason'')))
     (run Task 2 [[Run (np ''jason'')], [Shutdown]] [Handoff 0 0, Client 1, Client 1, Client 0])
   = Some ([RunRet (np ''jason'') None], Some ''Invalid name'')"
  by code_simp

text \<open>
  C9. The proviso of the claim is read as: the pool is used by one client goroutine
  only, which makes its calls one after the other, so that no other goroutine calls
  \<^verbatim>\<open>Run\<close> or \<^verbatim>\<open>Shutdown\<close> while a \<^verbatim>\<open>Run\<close> is in flight (a \<^verbatim>\<open>Shutdown\<close> from a second
  goroutine closes the result channel, and a \<^verbatim>\<open>Run\<close> in flight then returns \<^verbatim>\<open>nil\<close>
  whatever its task returns). Under this proviso every \<^verbatim>\<open>Run(w)\<close> that returns
  returns \<open>T w\<close>, the value of \<^verbatim>\<open>w.Task()\<close>, whatever the client's calls and the size
  of the pool are. When the calls are \<^verbatim>\<open>Run\<close> calls only, on a pool of \<open>N\<close> workers with
  \<open>1 \<le> N < 2^31\<close> (the sizes for which \<^verbatim>\<open>New\<close> makes a pool whose barrier equals \<open>N\<close>),
  the calls do return: in every state reached the log holds exactly the outcomes of the
  calls made so far, some step is enabled as long as a call is left, an execution has at
  most three steps for each call, and an execution that completes all calls exists.
\<close>

theorem sequential_Run_returns_Task:
  "(\<forall>ls s. run T N [prog] ls = Some s \<longrightarrow> list_all (own_outcome T) (log (clients s ! 0))) \<and>
   (1 \<le> N \<and> N < 2 ^ 31 \<longrightarrow>
      (\<forall>ls s. run T N [map Run ws] ls = Some s \<longrightarrow>
         log (clients s ! 0) @ map (outcome_of T) (todo (clients s ! 0)) =
           map (\<lambda>w. RunRet w (T w)) ws \<and>
         (todo (clients s ! 0) \<noteq> [] \<longrightarrow> (\<exists>l s'. step T l s = Some s')) \<and>
         length ls \<le> 3 * length ws) \<and>
      (\<exists>ls s. run T N [map Run ws] ls = Some s \<and> todo (clients s ! 0) = [] \<and>
              log (clients s ! 0) = map (\<lambda>w. RunRet w (T w)) ws))"
proof (intro conjI allI impI)
  fix ls s assume "run T N [prog] ls = Some s"
  from run_seq_inv[OF this] show "list_all (own_outcome T) (log (clients s ! 0))"
    by (simp add: seq_inv_def)
next
  fix ls s assume NN: "1 \<le> N \<and> N < 2 ^ 31" and r: "run T N [map Run ws] ls = Some s"
  then have N: "1 \<le> N" by simp
  note J = run_run_only[OF r]
  from J show "log (clients s ! 0) @ map (outcome_of T) (todo (clients s ! 0)) =
           map (\<lambda>w. RunRet w (T w)) ws"
    by (simp add: run_only_inv_def)
  from J remaining_nonneg[of T s] have "0 \<le> 3 * int (length ws) - int (length ls)"
    by simp
  then show "length ls \<le> 3 * length ws" by linarith
  {
    assume td: "todo (clients s ! 0) \<noteq> []"
    from run_length_workers[OF r] N have "0 < length (workers s)" by simp
    with td J show "\<exists>l s'. step T l s = Some s'"
      by (intro run_only_progress[of T s ws]) simp_all
  }
next
  assume NN: "1 \<le> N \<and> N < 2 ^ 31"
  then have N: "1 \<le> N" and "int32 N = N" by (simp_all add: int32_id)
  then have "run T N [map Run ws] [] \<noteq> None" by (simp add: run_Some_iff)
  then obtain s0 where s0: "run T N [map Run ws] [] = Some s0" by blast
  from run_only_completes[OF s0 N refl] obtain ls' s' where
    r': "run T N [map Run ws] ([] @ ls') = Some s'" and td: "todo (clients s' ! 0) = []"
    by blast
  from run_run_only[OF r'] td have "log (clients s' ! 0) = map (\<lambda>w. RunRet w (T w)) ws"
    by (simp add: run_only_inv_def)
  with r' td show "\<exists>ls s. run T N [map Run ws] ls = Some s \<and> todo (clients s ! 0) = [] \<and>
              log (clients s ! 0) = map (\<lambda>w. RunRet w (T w)) ws"
    by blast
qed

text \<open>One client runs two tasks in turn on a pool of two; the second task fails.\<close>

theorem sequential_Run_returns_Task_witness:
  "(1::int) \<le> 2 \<and> (2::int) < 2 ^ 31 \<and>
   (\<exists>s t. run Task 2 [map Run [np ''steve'', np ''jason'']]
             [Handoff 0 1, Worker 1, Reply 1 0, Handoff 0 0, Worker 0, Reply 0 0] = Some s \<and>
          todo (clients s ! 0) = [] \<and>
          log (clients s ! 0) = [RunRet (np ''steve'') None, RunRet (np ''jason'') (Some ''Invalid name'')] \<and>
          list_all (own_outcome Task) (log (clients s ! 0)) \<and>
          run Task 2 [map Run [np ''steve'', np ''jason'']] [Handoff 0 1] = Some t \<and>
          todo (clients t ! 0) \<noteq> [] \<and> (\<exists>l t'. step Task l t = Some t'))"
proof -
  let ?ws = "[np ''steve'', np ''jason'']"
  let ?ls = "[Handoff 0 1, Worker 1, Reply 1 0, Handoff 0 0, Worker 0, Reply 0 0]"
  have one: "(1::int) \<le> 2" and two: "(2::int) < 2 ^ 31" by simp_all
  then have both: "(1::int) \<le> 2 \<and> (2::int) < 2 ^ 31" by simp
  have "map_option (\<lambda>s. todo (clients s ! 0)) (run Task 2 [map Run ?ws] ?ls) = Some []"
    by code_simp
  then obtain s where s: "run Task 2 [map Run ?ws] ?ls = Some s" "todo (clients s ! 0) = []"
    by auto
  note h = sequential_Run_returns_Task[of Task 2 "map Run ?ws" ?ws]
  from h[THEN conjunct1, rule_format, OF s(1)]
  have a: "list_all (own_outcome Task) (log (clients s ! 0))" .
  from h[THEN conjunct2, rule_format, OF both, THEN conjunct1, rule_format, OF s(1)] s(2)
  have b: "log (clients s ! 0) = [RunRet (np ''steve'') None, RunRet (np ''jason'') (Some ''Invalid name'')]"
    by (simp add: Task_def np_def)
  have "map_option (\<lambda>s. todo (clients s ! 0) \<noteq> []) (run Task 2 [map Run ?ws] [Handoff 0 1]) = Some True"
    by code_simp
  then obtain t where t: "run Task 2 [map Run ?ws] [Handoff 0 1] = Some t" "todo (clients t ! 0) \<noteq> []"
    by auto
  from h[THEN conjunct2, rule_format, OF both, THEN conjunct1, rule_format, OF t(1)] t(2)
  have c: "\<exists>l t'. step Task l t = Some t'"
    by blast
  from one two s a b t c show ?thesis by blast
qed

section \<open>Concurrent callers and the shared result channel\<close>

text \<open>
  C1 asks that a \<^verbatim>\<open>Run\<close> call returns only after its own task has run, with the
  outcome of its own task, also when several calls are in flight. The code does not do
  that: all workers send on the one channel \<^verbatim>\<open>p.errChan\<close> and every caller receives
  from it. In the sample driver's own program, seven callers on a pool of two, the
  caller of \<^verbatim>\<open>Run(steve)\<close> (client 0) and the caller of \<^verbatim>\<open>Run(jason)\<close> (client 3)
  both hand their task over; the worker with \<^verbatim>\<open>jason\<close> finishes first and
  its outcome is received by the caller of \<^verbatim>\<open>Run(steve)\<close>. That call has then returned
  \<^verbatim>\<open>Invalid name\<close>, while the worker with \<^verbatim>\<open>steve\<close> is still inside \<^verbatim>\<open>Task\<close>, whose own
  value is \<^verbatim>\<open>nil\<close>, and the caller of \<^verbatim>\<open>Run(jason)\<close> is still waiting.
\<close>

theorem Run_returns_foreign_outcome:
  "map_option (\<lambda>s. (log (clients s ! 0), at (clients s ! 3), workers s ! 0, Task (np ''steve'')))
     (run Task 2 main_progs [Handoff 0 0, Handoff 3 1, Worker 1, Reply 1 0])
   = Some ([RunRet (np ''steve'') (Some ''Invalid name'')], AwaitErr, InTask (np ''steve''), None)"
  by code_simp

text \<open>
  C7 asks that the failure of a task is the outcome of the \<^verbatim>\<open>Run\<close> call that submitted
  it. Through the same shared channel the failure of \<^verbatim>\<open>jason\<close> is returned, unmodified,
  by the call \<^verbatim>\<open>Run(bob)\<close>, and \<^verbatim>\<open>Run(jason)\<close> returns \<^verbatim>\<open>nil\<close>, when both tasks have
  finished and the two outcomes are delivered crosswise.
\<close>

theorem failure_delivered_to_other_caller:
  "map_option (\<lambda>s. (map log (clients s), Task (np ''jason''), Task (np ''bob'')))
     (run Task 2 [[Run (np ''jason'')], [Run (np ''bob'')]]
        [Handoff 0 0, Handoff 1 1, Worker 0, Worker 1, Reply 0 1, Reply 1 0])
   = Some ([[RunRet (np ''jason'') None], [RunRet (np ''bob'') (Some ''Invalid name'')]],
           Some ''Invalid name'', None)"
  by code_simp

section \<open>Shutdown while a task is in flight\<close>

lemma Shutdown_race_state:
  "run Task 1 [[Run (np ''steve'')], [Shutdown]]
     [Handoff 0 0, Client 1, Client 1, Worker 0, Worker 0, Client 0]
   = Some \<lparr>pool = \<lparr>work = \<lparr>cap = 0, buf = [], is_closed = True\<rparr>, wg = 1,
                    errChan = \<lparr>cap = 0, buf = [], is_closed = True\<rparr>\<rparr>,
           workers = [Crashed SendOnClosedChannel],
           clients = [\<lparr>todo = [], at = Entry, log = [RunRet (np ''steve'') None]\<rparr>,
                      \<lparr>todo = [Shutdown], at = Wait, log = []\<rparr>]\<rparr>"
  by code_simp

lemma Shutdown_race_stuck:
  "step T l \<lparr>pool = \<lparr>work = \<lparr>cap = 0, buf = [], is_closed = True\<rparr>, wg = 1,
                    errChan = \<lparr>cap = 0, buf = [], is_closed = True\<rparr>\<rparr>,
           workers = [Crashed SendOnClosedChannel],
           clients = [\<lparr>todo = [], at = Entry, log = lg\<rparr>,
                      \<lparr>todo = [Shutdown], at = Wait, log = []\<rparr>]\<rparr> = None"
  (is "step T l ?s = None")
proof (cases "step T l ?s")
  case (Some s')
  then show ?thesis
    by (cases rule: step_cases) (auto simp: less_Suc_eq nth_Cons')
qed simp

text \<open>
  C3 asks that no use of the pool, a \<^verbatim>\<open>Shutdown\<close> that races with a \<^verbatim>\<open>Run\<close> included,
  makes a worker panic and leaves the barrier unsatisfied. The code does: \<^verbatim>\<open>Shutdown\<close>
  closes \<^verbatim>\<open>p.errChan\<close> before it waits. With one worker inside \<^verbatim>\<open>Task\<close> when
  \<^verbatim>\<open>Shutdown\<close> closes both channels, the worker's send of the outcome panics (send on
  closed channel), the caller of \<^verbatim>\<open>Run\<close> receives \<^verbatim>\<open>nil\<close> from the closed channel, and
  the system is then stuck for good: the barrier is at 1, the caller of \<^verbatim>\<open>Shutdown\<close>
  is in \<^verbatim>\<open>Wait\<close>, and no step is enabled.
\<close>

theorem worker_panics_when_Shutdown_races:
  "\<exists>s. run Task 1 [[Run (np ''steve'')], [Shutdown]]
          [Handoff 0 0, Client 1, Client 1, Worker 0, Worker 0, Client 0] = Some s \<and>
        workers s = [Crashed SendOnClosedChannel] \<and> wg (pool s) = 1 \<and>
        todo (clients s ! 1) = [Shutdown] \<and> at (clients s ! 1) = Wait \<and>
        (\<forall>l. step Task l s = None)"
  by (intro exI conjI, rule Shutdown_race_state) (simp_all add: Shutdown_race_stuck)

end
